theory Spec2Isabelle
  imports Main
begin

section \<open>The client pool cache of control-plane/pkg/kafka/clientpool/pool\_cache.go\<close>

text \<open>
  The pool is a Go structure of pointers, buffered channels and mutexes. It is
  modelled as one record holding the map of the pool and the heap it lives in:
  cells and channels are referred to by address, so that a cell handed out to a
  caller, the queue it returns to and the queue an entry currently owns can be
  told apart. Every exported call is one atomic step on that record; the lock of
  the pool and the lock of an entry are taken and released inside such a step and
  are therefore not part of the state. The lock of a cell is held across calls
  and is a field of the cell.

  A step that cannot complete without another goroutine acting (a receive on an
  empty channel, a send on a full one, locking a held mutex) has the outcome
  \<open>Blocks\<close>; a run-time panic (a channel size that is negative or too large, a nil
  dereference, unlocking a free mutex) has the outcome \<open>Panics\<close>.

  A goroutine launched by \<open>go c.cleanupEntries()\<close> waits for the lock of the pool,
  which the call that launches it holds until it returns; the sweep is therefore
  a step of its own, which runs at some moment after that call, before or after
  the calls that follow.
\<close>

subsection \<open>Errors and outcomes\<close>

datatype error = Err string | joinError "error list"

text \<open>\<open>errors.Join\<close> of the standard library, at its two-argument use: nil
  arguments are dropped, and the result is nil when nothing is left.\<close>

definition errors_Join :: "error option \<Rightarrow> error option \<Rightarrow> error option" where
  "errors_Join a b =
     (case List.map_filter id [a, b] of [] \<Rightarrow> None | e # es \<Rightarrow> Some (joinError (e # es)))"

datatype 'a exec = Blocks | Panics | Done 'a

subsection \<open>Buffered channels\<close>

record 'a chan =
  chan_cap :: int
  chan_buf :: "'a list"

text \<open>The nil channel: nothing can be sent to it or received from it.\<close>

definition nil_chan :: "'a chan" where
  "nil_chan = \<lparr>chan_cap = 0, chan_buf = []\<rparr>"

text \<open>\<open>make(chan T, n)\<close> panics (\<open>makechan: size out of range\<close>) when the size is
  negative and when the buffer would be larger than the run-time system allocates. The
  run-time system is not part of this repository: the largest size it accepts is the
  parameter \<open>lim\<close>. The two channels of an entry have elements of one machine word
  (a pointer, an \<open>int\<close>), so one limit serves both.\<close>

definition make_chan :: "int \<Rightarrow> int \<Rightarrow> 'a chan exec" where
  "make_chan lim n =
     (if n < 0 \<or> lim < n then Panics else Done \<lparr>chan_cap = n, chan_buf = []\<rparr>)"

text \<open>\<open>ch <- x\<close>: \<open>None\<close> when the buffer is full and the send would block.\<close>

definition chan_send :: "'a \<Rightarrow> 'a chan \<Rightarrow> 'a chan option" where
  "chan_send x ch =
     (if int (length (chan_buf ch)) < chan_cap ch
      then Some (ch\<lparr>chan_buf := chan_buf ch @ [x]\<rparr>) else None)"

text \<open>\<open><-ch\<close>: \<open>None\<close> when the buffer is empty and the receive would block.\<close>

definition chan_recv :: "'a chan \<Rightarrow> ('a \<times> 'a chan) option" where
  "chan_recv ch =
     (case chan_buf ch of [] \<Rightarrow> None | x # xs \<Rightarrow> Some (x, ch\<lparr>chan_buf := xs\<rparr>))"

text \<open>\<open>for i := i0; i < n; i++ { ch <- 1 }\<close>\<close>

function fill_loop :: "int \<Rightarrow> int \<Rightarrow> int chan \<Rightarrow> int chan option" where
  "fill_loop i n ch =
     (if i < n
      then (case chan_send 1 ch of None \<Rightarrow> None | Some ch' \<Rightarrow> fill_loop (i + 1) n ch')
      else Some ch)"
  by pat_completeness auto
termination
  by (relation "measure (\<lambda>(i, n, ch). nat (n - i))") auto

declare fill_loop.simps [simp del]

text \<open>The choice a \<open>select\<close> makes: one of the alternatives that can proceed,
  picked by the scheduler (the number \<open>rnd\<close>); none when no alternative can.\<close>

definition select_pick :: "nat \<Rightarrow> 'a list \<Rightarrow> 'a option" where
  "select_pick rnd rs = (if rs = [] then None else Some (rs ! (rnd mod length rs)))"

subsection \<open>Data model\<close>

text \<open>A factory \<open>func() (V, error)\<close> is a closure: it reads and changes a world
  \<open>'w\<close> outside the pool, so two calls of one factory may differ.\<close>

type_synonym ('v, 'w) CreateNewValue = "'w \<Rightarrow> (error + 'v) \<times> 'w"

text \<open>The field \<open>value\<close> of a cell is written \<open>cv_value\<close>.\<close>

record 'v cacheValue =
  lock :: bool
  returnChan :: nat
  cv_value :: 'v
  lastUsed :: int

record ('k, 'v, 'w) cacheEntry =
  available :: nat
  capacity :: nat
  maxCapacity :: int
  createValue :: "('v, 'w) CreateNewValue"
  key :: 'k

text \<open>The pool (\<open>entries\<close>, \<open>lastChecked\<close>) together with its heap: the cells,
  the channels of cells, the channels of tickets, each with its next free address;
  the values closed so far, in order; the world of the factories; the number of
  sweeps launched by \<open>go c.cleanupEntries()\<close> that have not run yet; and the largest
  channel size that \<open>make\<close> accepts. An entry is reachable only through the map and
  is stored in it.\<close>

record ('k, 'v, 'w) CachePool =
  entries :: "'k \<Rightarrow> ('k, 'v, 'w) cacheEntry option"
  lastChecked :: int
  sweeps :: nat
  cells :: "nat \<Rightarrow> 'v cacheValue option"
  ncells :: nat
  vchans :: "nat \<Rightarrow> nat chan"
  nvchans :: nat
  tchans :: "nat \<Rightarrow> int chan"
  ntchans :: nat
  closedLog :: "'v list"
  world :: 'w
  maxChan :: int

text \<open>A release closure is either the no-op or the method value
  \<open>value.returnToCache\<close> of one cell.\<close>

datatype ReturnClientFunc = NilReturnCapacityToCache | ReturnToCache nat

datatype select_case = CtxDone | FromAvailable | FromCapacity

definition Minute :: int where
  "Minute = 60000000000"

text \<open>\<open>NewLRUCache\<close>, in a run-time system with the channel limit \<open>lim\<close>, at the time
  \<open>now\<close>, with the world \<open>w\<close> outside.\<close>

definition NewLRUCache :: "int \<Rightarrow> int \<Rightarrow> 'w \<Rightarrow> ('k, 'v, 'w) CachePool" where
  "NewLRUCache lim now w =
     \<lparr>entries = (\<lambda>k. None), lastChecked = now, sweeps = 0,
      cells = (\<lambda>c. None), ncells = 0,
      vchans = (\<lambda>r. nil_chan), nvchans = 0,
      tchans = (\<lambda>r. nil_chan), ntchans = 0,
      closedLog = [], world = w, maxChan = lim\<rparr>"

subsection \<open>Value cells\<close>

definition set_cell :: "nat \<Rightarrow> 'v cacheValue \<Rightarrow> ('k, 'v, 'w) CachePool \<Rightarrow> ('k, 'v, 'w) CachePool" where
  "set_cell c cv st = st\<lparr>cells := (cells st)(c := Some cv)\<rparr>"

definition set_vchan :: "nat \<Rightarrow> nat chan \<Rightarrow> ('k, 'v, 'w) CachePool \<Rightarrow> ('k, 'v, 'w) CachePool" where
  "set_vchan r ch st = st\<lparr>vchans := (vchans st)(r := ch)\<rparr>"

definition set_tchan :: "nat \<Rightarrow> int chan \<Rightarrow> ('k, 'v, 'w) CachePool \<Rightarrow> ('k, 'v, 'w) CachePool" where
  "set_tchan r ch st = st\<lparr>tchans := (tchans st)(r := ch)\<rparr>"

text \<open>\<open>value.value.Close()\<close>; its error is dropped everywhere.\<close>

definition Close :: "'v \<Rightarrow> ('k, 'v, 'w) CachePool \<Rightarrow> ('k, 'v, 'w) CachePool" where
  "Close v st = st\<lparr>closedLog := closedLog st @ [v]\<rparr>"

definition acquireFromCache :: "int \<Rightarrow> nat \<Rightarrow> ('k, 'v, 'w) CachePool \<Rightarrow> ('k, 'v, 'w) CachePool exec" where
  "acquireFromCache now c st =
     (case cells st c of
        None \<Rightarrow> Panics
      | Some cv \<Rightarrow>
          if lock cv then Blocks
          else Done (set_cell c (cv\<lparr>lock := True, lastUsed := now\<rparr>) st))"

text \<open>\<open>returnToCache\<close> is \<open>defer cv.lock.Unlock(); cv.returnChan <- cv\<close>: the body
  sends (\<open>returnToCache_send\<close>, line 338), and the deferred call unlocks when the body
  is done (\<open>returnToCache_unlock\<close>, line 337). Nothing keeps other goroutines from
  running between the two, so the call is two steps: \<open>returnToCache_between\<close> is the
  call with what the other goroutines do after its first step and before its second,
  and \<open>returnToCache\<close> is the call when they do nothing then.\<close>

definition returnToCache_send :: "nat \<Rightarrow> ('k, 'v, 'w) CachePool \<Rightarrow> ('k, 'v, 'w) CachePool exec" where
  "returnToCache_send c st =
     (case cells st c of
        None \<Rightarrow> Panics
      | Some cv \<Rightarrow>
          (case chan_send c (vchans st (returnChan cv)) of
             None \<Rightarrow> Blocks
           | Some ch \<Rightarrow> Done (set_vchan (returnChan cv) ch st)))"

definition returnToCache_unlock :: "nat \<Rightarrow> ('k, 'v, 'w) CachePool \<Rightarrow> ('k, 'v, 'w) CachePool exec" where
  "returnToCache_unlock c st =
     (case cells st c of
        None \<Rightarrow> Panics
      | Some cv \<Rightarrow> if lock cv then Done (set_cell c (cv\<lparr>lock := False\<rparr>) st) else Panics)"

definition returnToCache_between ::
  "nat \<Rightarrow> (('k, 'v, 'w) CachePool \<Rightarrow> ('k, 'v, 'w) CachePool exec) \<Rightarrow> ('k, 'v, 'w) CachePool
     \<Rightarrow> ('k, 'v, 'w) CachePool exec" where
  "returnToCache_between c others st =
     (case returnToCache_send c st of
        Blocks \<Rightarrow> Blocks
      | Panics \<Rightarrow> Panics
      | Done st1 \<Rightarrow>
          (case others st1 of
             Blocks \<Rightarrow> Blocks
           | Panics \<Rightarrow> Panics
           | Done st2 \<Rightarrow> returnToCache_unlock c st2))"

definition returnToCache :: "nat \<Rightarrow> ('k, 'v, 'w) CachePool \<Rightarrow> ('k, 'v, 'w) CachePool exec" where
  "returnToCache c st = returnToCache_between c Done st"

definition invoke :: "ReturnClientFunc \<Rightarrow> ('k, 'v, 'w) CachePool \<Rightarrow> ('k, 'v, 'w) CachePool exec" where
  "invoke r st = (case r of NilReturnCapacityToCache \<Rightarrow> Done st | ReturnToCache c \<Rightarrow> returnToCache c st)"

text \<open>\<open>updateValue\<close> holds the lock of the cell for the whole call and releases it on
  every path, so the lock is free before and after.\<close>

definition updateValue ::
  "('v, 'w) CreateNewValue \<Rightarrow> nat \<Rightarrow> nat \<Rightarrow> ('k, 'v, 'w) CachePool
     \<Rightarrow> (('k, 'v, 'w) CachePool \<times> error option) exec" where
  "updateValue createNewValue newAvailable c st =
     (case cells st c of
        None \<Rightarrow> Panics
      | Some cv \<Rightarrow>
          if lock cv then Blocks
          else
            (let st1 = Close (cv_value cv) st in
             case createNewValue (world st1) of
               (Inl err, w) \<Rightarrow> Done (st1\<lparr>world := w\<rparr>, Some err)
             | (Inr v, w) \<Rightarrow>
                 Done (set_cell c (cv\<lparr>cv_value := v, returnChan := newAvailable\<rparr>) (st1\<lparr>world := w\<rparr>),
                       None)))"

subsection \<open>Key entries\<close>

definition createCacheValue ::
  "('k, 'v, 'w) cacheEntry \<Rightarrow> ('k, 'v, 'w) CachePool \<Rightarrow> ('k, 'v, 'w) CachePool \<times> (error + nat)" where
  "createCacheValue ce st =
     (case createValue ce (world st) of
        (Inl err, w) \<Rightarrow> (st\<lparr>world := w\<rparr>, Inl err)
      | (Inr v, w) \<Rightarrow>
          (set_cell (ncells st)
             \<lparr>lock = False, returnChan = available ce, cv_value = v, lastUsed = 0\<rparr>
             (st\<lparr>world := w, ncells := Suc (ncells st)\<rparr>),
           Inr (ncells st)))"

text \<open>The shared tail of the two successful paths of \<open>getValue\<close> and of
  \<open>AddAndAcquire\<close>: \<open>value.acquireFromCache(); return value.value, value.returnToCache, nil\<close>.\<close>

definition handOut ::
  "int \<Rightarrow> nat \<Rightarrow> ('k, 'v, 'w) CachePool
     \<Rightarrow> (('k, 'v, 'w) CachePool \<times> 'v option \<times> ReturnClientFunc \<times> error option) exec" where
  "handOut now c st =
     (case acquireFromCache now c st of
        Blocks \<Rightarrow> Blocks
      | Panics \<Rightarrow> Panics
      | Done st1 \<Rightarrow> Done (st1, map_option cv_value (cells st1 c), ReturnToCache c, None))"

text \<open>The alternatives of the \<open>select\<close> of \<open>getValue\<close> that can proceed. The
  context is given by what \<open>ctx.Err()\<close> returns: nil while it is not done.\<close>

definition getValue_ready ::
  "error option \<Rightarrow> ('k, 'v, 'w) cacheEntry \<Rightarrow> ('k, 'v, 'w) CachePool \<Rightarrow> select_case list" where
  "getValue_ready ctx ce st =
     (if ctx \<noteq> None then [CtxDone] else []) @
     (if chan_buf (vchans st (available ce)) \<noteq> [] then [FromAvailable] else []) @
     (if chan_buf (tchans st (capacity ce)) \<noteq> [] then [FromCapacity] else [])"

definition getValue ::
  "nat \<Rightarrow> error option \<Rightarrow> int \<Rightarrow> ('k, 'v, 'w) cacheEntry \<Rightarrow> ('k, 'v, 'w) CachePool
     \<Rightarrow> (('k, 'v, 'w) CachePool \<times> 'v option \<times> ReturnClientFunc \<times> error option) exec" where
  "getValue rnd ctx now ce st =
     (case select_pick rnd (getValue_ready ctx ce st) of
        None \<Rightarrow> Blocks
      | Some CtxDone \<Rightarrow>
          (case ctx of
             None \<Rightarrow> Blocks
           | Some err \<Rightarrow> Done (st, None, NilReturnCapacityToCache, Some err))
      | Some FromAvailable \<Rightarrow>
          (case chan_recv (vchans st (available ce)) of
             None \<Rightarrow> Blocks
           | Some (c, ch) \<Rightarrow> handOut now c (set_vchan (available ce) ch st))
      | Some FromCapacity \<Rightarrow>
          (case chan_recv (tchans st (capacity ce)) of
             None \<Rightarrow> Blocks
           | Some (t, ch) \<Rightarrow>
               (case createCacheValue ce (set_tchan (capacity ce) ch st) of
                  (st1, Inl err) \<Rightarrow>
                    (case chan_send 1 (tchans st1 (capacity ce)) of
                       None \<Rightarrow> Blocks
                     | Some ch1 \<Rightarrow>
                         Done (set_tchan (capacity ce) ch1 st1, None, NilReturnCapacityToCache, Some err))
                | (st1, Inr c) \<Rightarrow> handOut now c st1)))"

text \<open>The non-blocking drain of \<open>getAvailableCapacity\<close>:
  \<open>for { select { case <-ce.capacity: n += 1; default: break L } }\<close>.\<close>

function drain_capacity :: "int chan \<Rightarrow> int \<Rightarrow> int chan \<times> int" where
  "drain_capacity ch n =
     (case chan_recv ch of
        None \<Rightarrow> (ch, n)
      | Some (t, ch') \<Rightarrow> drain_capacity ch' (n + 1))"
  by pat_completeness auto
termination
  by (relation "measure (\<lambda>(ch, n). length (chan_buf ch))")
     (auto simp: chan_recv_def split: list.splits)

declare drain_capacity.simps [simp del]

definition getAvailableCapacity ::
  "('k, 'v, 'w) cacheEntry \<Rightarrow> ('k, 'v, 'w) CachePool \<Rightarrow> (('k, 'v, 'w) CachePool \<times> int) exec" where
  "getAvailableCapacity ce st =
     (case drain_capacity (tchans st (capacity ce)) 0 of
        (ch, availableCapacity) \<Rightarrow>
          (case fill_loop 0 availableCapacity ch of
             None \<Rightarrow> Blocks
           | Some ch1 \<Rightarrow> Done (set_tchan (capacity ce) ch1 st, availableCapacity)))"

text \<open>One turn of the loop of \<open>getValidValuesAndCleanupOthers\<close> on the cell just
  received: the result says whether the cell is still valid.\<close>

definition cleanupCell ::
  "int \<Rightarrow> ('k, 'v, 'w) cacheEntry \<Rightarrow> nat \<Rightarrow> ('k, 'v, 'w) CachePool
     \<Rightarrow> (('k, 'v, 'w) CachePool \<times> bool) exec" where
  "cleanupCell now ce c st =
     (case cells st c of
        None \<Rightarrow> Panics
      | Some cv \<Rightarrow>
          if lock cv then Blocks
          else if now - lastUsed cv \<ge> Minute * 30
          then
            (let st1 = Close (cv_value cv) st in
             case chan_send 1 (tchans st1 (capacity ce)) of
               None \<Rightarrow> Blocks
             | Some ch \<Rightarrow> Done (set_tchan (capacity ce) ch st1, False))
          else Done (st, True))"

lemma cleanupCell_vchans:
  "cleanupCell now ce c st = Done (st', keep) \<Longrightarrow> vchans st' = vchans st"
  by (auto simp: cleanupCell_def Close_def set_tchan_def Let_def
      split: option.splits if_splits)

function getValidValuesAndCleanupOthers ::
  "int \<Rightarrow> ('k, 'v, 'w) cacheEntry \<Rightarrow> nat list \<Rightarrow> ('k, 'v, 'w) CachePool
     \<Rightarrow> (('k, 'v, 'w) CachePool \<times> nat list) exec" where
  "getValidValuesAndCleanupOthers now ce stillValid st =
     (case chan_recv (vchans st (available ce)) of
        None \<Rightarrow> Done (st, stillValid)
      | Some (c, ch) \<Rightarrow>
          (case cleanupCell now ce c (set_vchan (available ce) ch st) of
             Blocks \<Rightarrow> Blocks
           | Panics \<Rightarrow> Panics
           | Done (st1, keep) \<Rightarrow>
               getValidValuesAndCleanupOthers now ce
                 (if keep then stillValid @ [c] else stillValid) st1))"
  by pat_completeness auto
termination
  by (relation "measure (\<lambda>(now, ce, sv, st). length (chan_buf (vchans st (available ce))))")
     (auto simp: chan_recv_def set_vchan_def split: list.splits dest!: cleanupCell_vchans)

declare getValidValuesAndCleanupOthers.simps [simp del]

text \<open>\<open>for _, value := range stillValid { ce.available <- value }\<close>\<close>

fun requeue :: "nat list \<Rightarrow> nat chan \<Rightarrow> nat chan option" where
  "requeue [] ch = Some ch"
| "requeue (c # cs) ch = (case chan_send c ch of None \<Rightarrow> None | Some ch' \<Rightarrow> requeue cs ch')"

definition cleanupValues ::
  "int \<Rightarrow> ('k, 'v, 'w) cacheEntry \<Rightarrow> ('k, 'v, 'w) CachePool \<Rightarrow> (('k, 'v, 'w) CachePool \<times> bool) exec" where
  "cleanupValues now ce st =
     (case getValidValuesAndCleanupOthers now ce [] st of
        Blocks \<Rightarrow> Blocks
      | Panics \<Rightarrow> Panics
      | Done (st1, stillValid) \<Rightarrow>
          (case requeue stillValid (vchans st1 (available ce)) of
             None \<Rightarrow> Blocks
           | Some ch \<Rightarrow>
               (case getAvailableCapacity ce (set_vchan (available ce) ch st1) of
                  Blocks \<Rightarrow> Blocks
                | Panics \<Rightarrow> Panics
                | Done (st2, n) \<Rightarrow> Done (st2, n = maxCapacity ce))))"

subsection \<open>The pool\<close>

text \<open>\<open>cleanupEntries\<close>, lines 216 to 225. Go leaves the order in which \<open>range\<close>
  visits a map open: \<open>ks\<close> is the list of the keys in the order of the visit. A key
  that is not in the map when its turn comes is passed over. The entry is deleted
  under its field \<open>key\<close>.\<close>

fun cleanupEntries ::
  "int \<Rightarrow> 'k list \<Rightarrow> ('k, 'v, 'w) CachePool \<Rightarrow> ('k, 'v, 'w) CachePool exec" where
  "cleanupEntries now [] st = Done st"
| "cleanupEntries now (k # ks) st =
     (case entries st k of
        None \<Rightarrow> cleanupEntries now ks st
      | Some entry \<Rightarrow>
          (case cleanupValues now entry st of
             Blocks \<Rightarrow> Blocks
           | Panics \<Rightarrow> Panics
           | Done (st1, noneLeft) \<Rightarrow>
               cleanupEntries now ks
                 (if noneLeft then st1\<lparr>entries := (entries st1)(key entry := None)\<rparr> else st1)))"

text \<open>The check at the head of \<open>AddAndAcquire\<close> and \<open>Get\<close>: when the last sweep
  was launched five minutes ago or more, note the time and launch another. The
  sweep itself takes the lock of the pool and so runs after the call has returned:
  \<open>sweepCheck\<close> counts it as launched, and \<open>runSweep\<close> is the step in which one
  launched sweep runs.\<close>

definition sweepCheck :: "int \<Rightarrow> ('k, 'v, 'w) CachePool \<Rightarrow> ('k, 'v, 'w) CachePool" where
  "sweepCheck now st =
     (if now - lastChecked st \<ge> 5 * Minute
      then st\<lparr>lastChecked := now, sweeps := Suc (sweeps st)\<rparr> else st)"

definition runSweep ::
  "int \<Rightarrow> 'k list \<Rightarrow> ('k, 'v, 'w) CachePool \<Rightarrow> ('k, 'v, 'w) CachePool exec" where
  "runSweep now ks st =
     (case sweeps st of
        0 \<Rightarrow> Done st
      | Suc n \<Rightarrow> cleanupEntries now ks (st\<lparr>sweeps := n\<rparr>))"

text \<open>Lines 77 to 84 and 133 to 139: the result of \<open>getValue\<close> on an entry that was
  found, with the release closure invoked on the error path.\<close>

definition fromEntry ::
  "(('k, 'v, 'w) CachePool \<times> 'v option \<times> ReturnClientFunc \<times> error option) exec
     \<Rightarrow> (('k, 'v, 'w) CachePool \<times> 'v option \<times> ReturnClientFunc \<times> bool \<times> error option) exec" where
  "fromEntry r =
     (case r of
        Blocks \<Rightarrow> Blocks
      | Panics \<Rightarrow> Panics
      | Done (st1, v, returnValue, err) \<Rightarrow>
          (case err of
             Some e \<Rightarrow>
               (case invoke returnValue st1 of
                  Blocks \<Rightarrow> Blocks
                | Panics \<Rightarrow> Panics
                | Done st2 \<Rightarrow> Done (st2, None, NilReturnCapacityToCache, True, Some e))
           | None \<Rightarrow> Done (st1, v, returnValue, True, None)))"

definition AddAndAcquire ::
  "nat \<Rightarrow> error option \<Rightarrow> int \<Rightarrow> 'k \<Rightarrow> ('v, 'w) CreateNewValue \<Rightarrow> int \<Rightarrow> ('k, 'v, 'w) CachePool
     \<Rightarrow> (('k, 'v, 'w) CachePool \<times> 'v option \<times> ReturnClientFunc \<times> bool \<times> error option) exec" where
  "AddAndAcquire rnd ctx now k createValue' maxEntries st0 =
     (let st = sweepCheck now st0 in
      case entries st k of
        Some entry \<Rightarrow> fromEntry (getValue rnd ctx now entry st)
      | None \<Rightarrow>
          (case (make_chan (maxChan st) maxEntries, make_chan (maxChan st) maxEntries) of
             (Done av, Done cp) \<Rightarrow>
               (case fill_loop 0 maxEntries cp of
                  None \<Rightarrow> Blocks
                | Some cp1 \<Rightarrow>
                    (let entry = \<lparr>available = nvchans st, capacity = ntchans st,
                                  maxCapacity = maxEntries, createValue = createValue', key = k\<rparr>;
                         st1 = st\<lparr>entries := (entries st)(k := Some entry),
                                  vchans := (vchans st)(nvchans st := av), nvchans := Suc (nvchans st),
                                  tchans := (tchans st)(ntchans st := cp1), ntchans := Suc (ntchans st)\<rparr>
                     in case chan_recv (tchans st1 (capacity entry)) of
                          None \<Rightarrow> Blocks
                        | Some (t, cp2) \<Rightarrow>
                            (case createCacheValue entry (set_tchan (capacity entry) cp2 st1) of
                               (st2, Inl err) \<Rightarrow>
                                 (case chan_send 1 (tchans st2 (capacity entry)) of
                                    None \<Rightarrow> Blocks
                                  | Some cp3 \<Rightarrow>
                                      Done (set_tchan (capacity entry) cp3 st2, None,
                                            NilReturnCapacityToCache, False, Some err))
                             | (st2, Inr c) \<Rightarrow>
                                 (case handOut now c st2 of
                                    Blocks \<Rightarrow> Blocks
                                  | Panics \<Rightarrow> Panics
                                  | Done (st3, v, returnValue, err) \<Rightarrow>
                                      Done (st3, v, returnValue, False, None)))))
           | (Blocks, r) \<Rightarrow> Blocks
           | (r, Blocks) \<Rightarrow> Blocks
           | (r, r') \<Rightarrow> Panics))"

definition Get ::
  "nat \<Rightarrow> error option \<Rightarrow> int \<Rightarrow> 'k \<Rightarrow> ('k, 'v, 'w) CachePool
     \<Rightarrow> (('k, 'v, 'w) CachePool \<times> 'v option \<times> ReturnClientFunc \<times> bool \<times> error option) exec" where
  "Get rnd ctx now k st0 =
     (let st = sweepCheck now st0 in
      case entries st k of
        None \<Rightarrow> Done (st, None, NilReturnCapacityToCache, False, None)
      | Some entry \<Rightarrow> fromEntry (getValue rnd ctx now entry st))"

text \<open>Lines 165 to 185 of \<open>UpdateIfExists\<close>: the two new channels, the measure of
  the free capacity, the swap of the four fields of the entry and the tickets of
  the new capacity. The result carries \<open>oldAvailable\<close>, the entry as it now is, and
  \<open>inUse\<close>.\<close>

definition UpdateIfExists_swap ::
  "'k \<Rightarrow> ('k, 'v, 'w) cacheEntry \<Rightarrow> ('v, 'w) CreateNewValue \<Rightarrow> int \<Rightarrow> ('k, 'v, 'w) CachePool
     \<Rightarrow> (('k, 'v, 'w) CachePool \<times> nat \<times> ('k, 'v, 'w) cacheEntry \<times> int) exec" where
  "UpdateIfExists_swap k entry createValue' maxEntries st =
     (case (make_chan (maxChan st) maxEntries, make_chan (maxChan st) maxEntries) of
        (Done newAvailable, Done newCapacity) \<Rightarrow>
          (case getAvailableCapacity entry st of
             Blocks \<Rightarrow> Blocks
           | Panics \<Rightarrow> Panics
           | Done (st1, availableCapacity) \<Rightarrow>
               (let oldAvailable = available entry;
                    oldMaxCapacity = maxCapacity entry;
                    entry1 = entry\<lparr>available := nvchans st1, maxCapacity := maxEntries,
                                   capacity := ntchans st1, createValue := createValue'\<rparr>;
                    inUse = oldMaxCapacity - availableCapacity
                in case (if maxEntries - inUse > 0
                         then fill_loop 0 (maxEntries - inUse) newCapacity
                         else Some newCapacity) of
                     None \<Rightarrow> Blocks
                   | Some newCapacity1 \<Rightarrow>
                       Done (st1\<lparr>entries := (entries st1)(k := Some entry1),
                                  vchans := (vchans st1)(nvchans st1 := newAvailable),
                                  nvchans := Suc (nvchans st1),
                                  tchans := (tchans st1)(ntchans st1 := newCapacity1),
                                  ntchans := Suc (ntchans st1)\<rparr>,
                             oldAvailable, entry1, inUse)))
      | (Blocks, r) \<Rightarrow> Blocks
      | (r, Blocks) \<Rightarrow> Blocks
      | (r, r') \<Rightarrow> Panics)"

text \<open>Lines 193 to 196: an excess cell is locked, closed and unlocked.\<close>

definition closeExcess :: "nat \<Rightarrow> ('k, 'v, 'w) CachePool \<Rightarrow> ('k, 'v, 'w) CachePool exec" where
  "closeExcess c st =
     (case cells st c of
        None \<Rightarrow> Panics
      | Some cv \<Rightarrow> if lock cv then Blocks else Done (Close (cv_value cv) st))"

text \<open>Lines 189 to 207, the loop \<open>for inUse > 0\<close>. The entry is not changed by
  anyone else during the call, so \<open>entry.capacity\<close> is read from the entry as the
  swap left it. The result carries \<open>j\<close> and \<open>err\<close>.\<close>

function UpdateIfExists_loop ::
  "('k, 'v, 'w) cacheEntry \<Rightarrow> ('v, 'w) CreateNewValue \<Rightarrow> int \<Rightarrow> nat \<Rightarrow> nat
     \<Rightarrow> int \<Rightarrow> int \<Rightarrow> error option \<Rightarrow> ('k, 'v, 'w) CachePool
     \<Rightarrow> (('k, 'v, 'w) CachePool \<times> int \<times> error option) exec" where
  "UpdateIfExists_loop entry createValue' maxEntries oldAvailable newAvailable inUse j err st =
     (if inUse > 0
      then
        (case chan_recv (vchans st oldAvailable) of
           None \<Rightarrow> Blocks
         | Some (c, ch) \<Rightarrow>
             (let st1 = set_vchan oldAvailable ch st in
              if j \<ge> maxEntries
              then
                (case closeExcess c st1 of
                   Blocks \<Rightarrow> Blocks
                 | Panics \<Rightarrow> Panics
                 | Done st2 \<Rightarrow>
                     UpdateIfExists_loop entry createValue' maxEntries oldAvailable newAvailable
                       (inUse - 1) j err st2)
              else
                (case updateValue createValue' newAvailable c st1 of
                   Blocks \<Rightarrow> Blocks
                 | Panics \<Rightarrow> Panics
                 | Done (st2, Some e) \<Rightarrow>
                     (case chan_send 1 (tchans st2 (capacity entry)) of
                        None \<Rightarrow> Blocks
                      | Some cp \<Rightarrow>
                          UpdateIfExists_loop entry createValue' maxEntries oldAvailable newAvailable
                            (inUse - 1) j (errors_Join err (Some e))
                            (set_tchan (capacity entry) cp st2))
                 | Done (st2, None) \<Rightarrow>
                     (case chan_send c (vchans st2 newAvailable) of
                        None \<Rightarrow> Blocks
                      | Some av \<Rightarrow>
                          UpdateIfExists_loop entry createValue' maxEntries oldAvailable newAvailable
                            (inUse - 1) (j + 1) err (set_vchan newAvailable av st2)))))
      else Done (st, j, err))"
  by pat_completeness auto
termination
  by (relation "measure (\<lambda>(entry, f, m, old, new, inUse, j, err, st). nat inUse)") auto

declare UpdateIfExists_loop.simps [simp del]

definition UpdateIfExists ::
  "'k \<Rightarrow> ('v, 'w) CreateNewValue \<Rightarrow> int \<Rightarrow> ('k, 'v, 'w) CachePool
     \<Rightarrow> (('k, 'v, 'w) CachePool \<times> bool \<times> error option) exec" where
  "UpdateIfExists k createValue' maxEntries st =
     (case entries st k of
        None \<Rightarrow> Done (st, False, None)
      | Some entry \<Rightarrow>
          (case UpdateIfExists_swap k entry createValue' maxEntries st of
             Blocks \<Rightarrow> Blocks
           | Panics \<Rightarrow> Panics
           | Done (st1, oldAvailable, entry1, inUse) \<Rightarrow>
               (case UpdateIfExists_loop entry1 createValue' maxEntries oldAvailable
                       (available entry1) inUse 0 None st1 of
                  Blocks \<Rightarrow> Blocks
                | Panics \<Rightarrow> Panics
                | Done (st2, j, err) \<Rightarrow>
                    if err \<noteq> None \<and> j = 0 then Done (st2, True, err)
                    else Done (st2, True, None))))"

subsection \<open>Auxiliary notions for the statements\<close>

text \<open>What a call returns, without the pool.\<close>

definition outcome :: "('s \<times> 'r) exec \<Rightarrow> 'r exec" where
  "outcome x = (case x of Blocks \<Rightarrow> Blocks | Panics \<Rightarrow> Panics | Done (st, r) \<Rightarrow> Done r)"

text \<open>The pool as lines 86 to 102 leave it, but for the number of tickets: the two
  channels are allocated and the entry is installed.\<close>

definition installed ::
  "int \<Rightarrow> 'k \<Rightarrow> ('v, 'w) CreateNewValue \<Rightarrow> int \<Rightarrow> nat \<Rightarrow> ('k, 'v, 'w) CachePool \<Rightarrow> ('k, 'v, 'w) CachePool" where
  "installed now k f cap tickets st =
     (sweepCheck now st)
       \<lparr>entries := (entries st)(k := Some \<lparr>available = nvchans st, capacity = ntchans st,
                                           maxCapacity = cap, createValue = f, key = k\<rparr>),
        vchans := (vchans st)(nvchans st := \<lparr>chan_cap = cap, chan_buf = []\<rparr>),
        nvchans := Suc (nvchans st),
        tchans := (tchans st)(ntchans st := \<lparr>chan_cap = cap, chan_buf = replicate tickets 1\<rparr>),
        ntchans := Suc (ntchans st)\<rparr>"

text \<open>A cell that has not been used for thirty minutes or more, and the values of
  a list of cells.\<close>

definition expired :: "int \<Rightarrow> ('k, 'v, 'w) CachePool \<Rightarrow> nat \<Rightarrow> bool" where
  "expired now st c =
     (case cells st c of None \<Rightarrow> False | Some cv \<Rightarrow> now - lastUsed cv \<ge> Minute * 30)"

definition valuesOf :: "('k, 'v, 'w) CachePool \<Rightarrow> nat list \<Rightarrow> 'v list" where
  "valuesOf st cs = List.map_filter (\<lambda>c. map_option cv_value (cells st c)) cs"

text \<open>Every cell of a list exists and its lock is free.\<close>

definition allIdle :: "('k, 'v, 'w) CachePool \<Rightarrow> nat list \<Rightarrow> bool" where
  "allIdle st cs = list_all (\<lambda>c. case cells st c of None \<Rightarrow> False | Some cv \<Rightarrow> \<not> lock cv) cs"

text \<open>The cells of an entry that are in use: those whose lock is held and that
  return to the available queue of the entry. The capacity conservation identity
  of the specification: idle cells, cells in use and tickets add up to the cap.\<close>

definition in_use :: "('k, 'v, 'w) cacheEntry \<Rightarrow> ('k, 'v, 'w) CachePool \<Rightarrow> nat" where
  "in_use ce st =
     length (filter (\<lambda>c. case cells st c of
                             None \<Rightarrow> False
                           | Some cv \<Rightarrow> lock cv \<and> returnChan cv = available ce)
               [0..<ncells st])"

definition conserved :: "('k, 'v, 'w) cacheEntry \<Rightarrow> ('k, 'v, 'w) CachePool \<Rightarrow> bool" where
  "conserved ce st \<longleftrightarrow>
     int (length (chan_buf (vchans st (available ce)))) + int (in_use ce st)
       + int (length (chan_buf (tchans st (capacity ce)))) = maxCapacity ce"

text \<open>Every cell in the available queue of an entry has been allocated and returns
  to that queue.\<close>

definition queue_ok :: "('k, 'v, 'w) cacheEntry \<Rightarrow> ('k, 'v, 'w) CachePool \<Rightarrow> bool" where
  "queue_ok ce st =
     list_all (\<lambda>c. c < ncells st \<and>
                    (case cells st c of None \<Rightarrow> False | Some cv \<Rightarrow> returnChan cv = available ce))
       (chan_buf (vchans st (available ce)))"

text \<open>The results of \<open>n\<close> calls of a factory one after the other, from the world
  \<open>w\<close>, and the world they leave; the errors of those that failed, in order; the
  cells, of a list of cells rebuilt by these calls one each, whose rebuild
  succeeded; and \<open>errors.Join\<close> folded over a list of errors, which is what
  \<open>err = errors.Join(err, e)\<close> makes of \<open>err\<close> over the turns of a loop.\<close>

fun calls :: "('v, 'w) CreateNewValue \<Rightarrow> nat \<Rightarrow> 'w \<Rightarrow> (error + 'v) list" where
  "calls f 0 w = []"
| "calls f (Suc n) w = fst (f w) # calls f n (snd (f w))"

fun world_after :: "('v, 'w) CreateNewValue \<Rightarrow> nat \<Rightarrow> 'w \<Rightarrow> 'w" where
  "world_after f 0 w = w"
| "world_after f (Suc n) w = world_after f n (snd (f w))"

definition failures :: "(error + 'v) list \<Rightarrow> error list" where
  "failures rs = List.map_filter (\<lambda>r. case r of Inl e \<Rightarrow> Some e | Inr v \<Rightarrow> None) rs"

definition successes :: "(error + 'v) list \<Rightarrow> 'v list" where
  "successes rs = List.map_filter (\<lambda>r. case r of Inl e \<Rightarrow> None | Inr v \<Rightarrow> Some v) rs"

definition rebuilt :: "nat list \<Rightarrow> (error + 'v) list \<Rightarrow> nat list" where
  "rebuilt cs rs = List.map_filter (\<lambda>(c, r). case r of Inl e \<Rightarrow> None | Inr v \<Rightarrow> Some c) (zip cs rs)"

definition joinAll :: "error option \<Rightarrow> error list \<Rightarrow> error option" where
  "joinAll err es = foldl (\<lambda>a e. errors_Join a (Some e)) err es"

subsection \<open>Example factories and pools\<close>

text \<open>Three factories over a world that counts the calls made so far: one that
  always succeeds and returns the count as the value, one that always fails, and
  one that fails at exactly one count. The example pools live in a run-time system
  that allocates channels of up to 1024 slots; their runs use caps of three at most
  and are the same under any larger limit.\<close>

definition factory_ok :: "(nat, nat) CreateNewValue" where
  "factory_ok w = (Inr w, Suc w)"

definition factory_fail :: "(nat, nat) CreateNewValue" where
  "factory_fail w = (Inl (Err ''dial''), Suc w)"

definition factory_fail_at :: "nat \<Rightarrow> (nat, nat) CreateNewValue" where
  "factory_fail_at n w = (if w = n then Inl (Err ''dial'') else Inr w, Suc w)"

definition entry3 :: "(nat, nat, nat) cacheEntry" where
  "entry3 = \<lparr>available = 0, capacity = 0, maxCapacity = 3, createValue = factory_ok, key = 7\<rparr>"

text \<open>The pool after \<open>AddAndAcquire\<close> of key 7 with cap 3 on a new cache: one
  cell in use, two tickets left.\<close>

definition pool_one_in_use :: "(nat, nat, nat) CachePool" where
  "pool_one_in_use =
     \<lparr>entries = (\<lambda>k. None)(7 := Some entry3), lastChecked = 0, sweeps = 0,
      cells = (\<lambda>c. None)(0 := Some \<lparr>lock = True, returnChan = 0, cv_value = 0, lastUsed = 0\<rparr>),
      ncells = 1,
      vchans = (\<lambda>r. nil_chan)(0 := \<lparr>chan_cap = 3, chan_buf = []\<rparr>), nvchans = 1,
      tchans = (\<lambda>r. nil_chan)(0 := \<lparr>chan_cap = 3, chan_buf = [1, 1]\<rparr>), ntchans = 1,
      closedLog = [], world = 1, maxChan = 1024\<rparr>"

text \<open>The pool after \<open>AddAndAcquire\<close> of key 7 with cap 3 and a failing factory
  on a new cache: the entry is installed, with no cell and three tickets.\<close>

definition entry_failing :: "(nat, nat, nat) cacheEntry" where
  "entry_failing = \<lparr>available = 0, capacity = 0, maxCapacity = 3, createValue = factory_fail, key = 7\<rparr>"

definition pool_failing :: "(nat, nat, nat) CachePool" where
  "pool_failing =
     \<lparr>entries = (\<lambda>k. None)(7 := Some entry_failing), lastChecked = 0, sweeps = 0,
      cells = (\<lambda>c. None), ncells = 0,
      vchans = (\<lambda>r. nil_chan)(0 := \<lparr>chan_cap = 3, chan_buf = []\<rparr>), nvchans = 1,
      tchans = (\<lambda>r. nil_chan)(0 := \<lparr>chan_cap = 3, chan_buf = [1, 1, 1]\<rparr>), ntchans = 1,
      closedLog = [], world = 1, maxChan = 1024\<rparr>"

text \<open>The pool after the cell of \<open>pool_one_in_use\<close> has been released.\<close>

definition pool_one_idle :: "(nat, nat, nat) CachePool" where
  "pool_one_idle =
     \<lparr>entries = (\<lambda>k. None)(7 := Some entry3), lastChecked = 0, sweeps = 0,
      cells = (\<lambda>c. None)(0 := Some \<lparr>lock = False, returnChan = 0, cv_value = 0, lastUsed = 0\<rparr>),
      ncells = 1,
      vchans = (\<lambda>r. nil_chan)(0 := \<lparr>chan_cap = 3, chan_buf = [0]\<rparr>), nvchans = 1,
      tchans = (\<lambda>r. nil_chan)(0 := \<lparr>chan_cap = 3, chan_buf = [1, 1]\<rparr>), ntchans = 1,
      closedLog = [], world = 1, maxChan = 1024\<rparr>"

text \<open>Two idle cells, the first last used at time 0 and the second twenty minutes
  later, one ticket, after no value has been closed.\<close>

definition pool_two_idle :: "(nat, nat, nat) CachePool" where
  "pool_two_idle =
     \<lparr>entries = (\<lambda>k. None)(7 := Some entry3), lastChecked = 0, sweeps = 0,
      cells = (\<lambda>c. None)
        (0 := Some \<lparr>lock = False, returnChan = 0, cv_value = 0, lastUsed = 0\<rparr>,
         1 := Some \<lparr>lock = False, returnChan = 0, cv_value = 1, lastUsed = 20 * Minute\<rparr>),
      ncells = 2,
      vchans = (\<lambda>r. nil_chan)(0 := \<lparr>chan_cap = 3, chan_buf = [0, 1]\<rparr>), nvchans = 1,
      tchans = (\<lambda>r. nil_chan)(0 := \<lparr>chan_cap = 3, chan_buf = [1]\<rparr>), ntchans = 1,
      closedLog = [], world = 2, maxChan = 1024\<rparr>"

text \<open>Three idle cells under a cap of three, and the same pool after
  \<open>UpdateIfExists\<close> has brought the cap down to two with a factory that succeeds: two
  cells rebuilt, the third closed and dropped.\<close>

definition pool_three_idle :: "(nat, nat, nat) CachePool" where
  "pool_three_idle =
     \<lparr>entries = (\<lambda>k. None)(7 := Some entry3), lastChecked = 0, sweeps = 0,
      cells = (\<lambda>c. None)
        (0 := Some \<lparr>lock = False, returnChan = 0, cv_value = 0, lastUsed = 0\<rparr>,
         1 := Some \<lparr>lock = False, returnChan = 0, cv_value = 1, lastUsed = 0\<rparr>,
         2 := Some \<lparr>lock = False, returnChan = 0, cv_value = 2, lastUsed = 0\<rparr>),
      ncells = 3,
      vchans = (\<lambda>r. nil_chan)(0 := \<lparr>chan_cap = 3, chan_buf = [0, 1, 2]\<rparr>), nvchans = 1,
      tchans = (\<lambda>r. nil_chan)(0 := \<lparr>chan_cap = 3, chan_buf = []\<rparr>), ntchans = 1,
      closedLog = [], world = 3, maxChan = 1024\<rparr>"


text \<open>The pool \<open>pool_three_idle\<close> after the swap of an \<open>UpdateIfExists\<close> that keeps
  the cap of three and brings a factory whose first call fails, and after the whole
  call: the first cell is lost and has left a ticket, the other two are rebuilt.\<close>

definition entry3_flaky :: "(nat, nat, nat) cacheEntry" where
  "entry3_flaky = \<lparr>available = 1, capacity = 1, maxCapacity = 3,
                    createValue = factory_fail_at 3, key = 7\<rparr>"

definition pool_three_swapped :: "(nat, nat, nat) CachePool" where
  "pool_three_swapped =
     \<lparr>entries = (\<lambda>k. None)(7 := Some entry3_flaky), lastChecked = 0, sweeps = 0,
      cells = (\<lambda>c. None)
        (0 := Some \<lparr>lock = False, returnChan = 0, cv_value = 0, lastUsed = 0\<rparr>,
         1 := Some \<lparr>lock = False, returnChan = 0, cv_value = 1, lastUsed = 0\<rparr>,
         2 := Some \<lparr>lock = False, returnChan = 0, cv_value = 2, lastUsed = 0\<rparr>),
      ncells = 3,
      vchans = (\<lambda>r. nil_chan)(0 := \<lparr>chan_cap = 3, chan_buf = [0, 1, 2]\<rparr>,
                                1 := \<lparr>chan_cap = 3, chan_buf = []\<rparr>), nvchans = 2,
      tchans = (\<lambda>r. nil_chan)(0 := \<lparr>chan_cap = 3, chan_buf = []\<rparr>,
                                1 := \<lparr>chan_cap = 3, chan_buf = []\<rparr>), ntchans = 2,
      closedLog = [], world = 3, maxChan = 1024\<rparr>"

definition pool_three_partial :: "(nat, nat, nat) CachePool" where
  "pool_three_partial =
     \<lparr>entries = (\<lambda>k. None)(7 := Some entry3_flaky), lastChecked = 0, sweeps = 0,
      cells = (\<lambda>c. None)
        (0 := Some \<lparr>lock = False, returnChan = 0, cv_value = 0, lastUsed = 0\<rparr>,
         1 := Some \<lparr>lock = False, returnChan = 1, cv_value = 4, lastUsed = 0\<rparr>,
         2 := Some \<lparr>lock = False, returnChan = 1, cv_value = 5, lastUsed = 0\<rparr>),
      ncells = 3,
      vchans = (\<lambda>r. nil_chan)(0 := \<lparr>chan_cap = 3, chan_buf = []\<rparr>,
                                1 := \<lparr>chan_cap = 3, chan_buf = [1, 2]\<rparr>), nvchans = 2,
      tchans = (\<lambda>r. nil_chan)(0 := \<lparr>chan_cap = 3, chan_buf = []\<rparr>,
                                1 := \<lparr>chan_cap = 3, chan_buf = [1]\<rparr>), ntchans = 2,
      closedLog = [0, 1, 2], world = 6, maxChan = 1024\<rparr>"


text \<open>The pool \<open>pool_three_idle\<close> after an \<open>UpdateIfExists\<close> that brings the cap down
  to two with a factory whose first call fails: one ticket and two idle cells under
  a cap of two. Then the same pool after a \<open>Get\<close> that has taken the ticket.\<close>

definition entry2_flaky :: "(nat, nat, nat) cacheEntry" where
  "entry2_flaky = \<lparr>available = 1, capacity = 1, maxCapacity = 2,
                    createValue = factory_fail_at 3, key = 7\<rparr>"

definition pool_three_over :: "(nat, nat, nat) CachePool" where
  "pool_three_over =
     \<lparr>entries = (\<lambda>k. None)(7 := Some entry2_flaky), lastChecked = 0, sweeps = 0,
      cells = (\<lambda>c. None)
        (0 := Some \<lparr>lock = False, returnChan = 0, cv_value = 0, lastUsed = 0\<rparr>,
         1 := Some \<lparr>lock = False, returnChan = 1, cv_value = 4, lastUsed = 0\<rparr>,
         2 := Some \<lparr>lock = False, returnChan = 1, cv_value = 5, lastUsed = 0\<rparr>),
      ncells = 3,
      vchans = (\<lambda>r. nil_chan)(0 := \<lparr>chan_cap = 3, chan_buf = []\<rparr>,
                                1 := \<lparr>chan_cap = 2, chan_buf = [1, 2]\<rparr>), nvchans = 2,
      tchans = (\<lambda>r. nil_chan)(0 := \<lparr>chan_cap = 3, chan_buf = []\<rparr>,
                                1 := \<lparr>chan_cap = 2, chan_buf = [1]\<rparr>), ntchans = 2,
      closedLog = [0, 1, 2], world = 6, maxChan = 1024\<rparr>"

definition pool_three_over_taken :: "(nat, nat, nat) CachePool" where
  "pool_three_over_taken =
     \<lparr>entries = (\<lambda>k. None)(7 := Some entry2_flaky), lastChecked = 0, sweeps = 0,
      cells = (\<lambda>c. None)
        (0 := Some \<lparr>lock = False, returnChan = 0, cv_value = 0, lastUsed = 0\<rparr>,
         1 := Some \<lparr>lock = False, returnChan = 1, cv_value = 4, lastUsed = 0\<rparr>,
         2 := Some \<lparr>lock = False, returnChan = 1, cv_value = 5, lastUsed = 0\<rparr>,
         3 := Some \<lparr>lock = True, returnChan = 1, cv_value = 6, lastUsed = 0\<rparr>),
      ncells = 4,
      vchans = (\<lambda>r. nil_chan)(0 := \<lparr>chan_cap = 3, chan_buf = []\<rparr>,
                                1 := \<lparr>chan_cap = 2, chan_buf = [1, 2]\<rparr>), nvchans = 2,
      tchans = (\<lambda>r. nil_chan)(0 := \<lparr>chan_cap = 3, chan_buf = []\<rparr>,
                                1 := \<lparr>chan_cap = 2, chan_buf = []\<rparr>), ntchans = 2,
      closedLog = [0, 1, 2], world = 7, maxChan = 1024\<rparr>"

text \<open>The pool \<open>pool_one_idle\<close> after an \<open>AddAndAcquire\<close> that has taken a ticket and
  built a second cell, and after the release of that cell: the queue holds the
  older idle cell ahead of the one just released.\<close>

definition pool_two_busy :: "(nat, nat, nat) CachePool" where
  "pool_two_busy =
     \<lparr>entries = (\<lambda>k. None)(7 := Some entry3), lastChecked = 0, sweeps = 0,
      cells = (\<lambda>c. None)
        (0 := Some \<lparr>lock = False, returnChan = 0, cv_value = 0, lastUsed = 0\<rparr>,
         1 := Some \<lparr>lock = True, returnChan = 0, cv_value = 1, lastUsed = 0\<rparr>),
      ncells = 2,
      vchans = (\<lambda>r. nil_chan)(0 := \<lparr>chan_cap = 3, chan_buf = [0]\<rparr>), nvchans = 1,
      tchans = (\<lambda>r. nil_chan)(0 := \<lparr>chan_cap = 3, chan_buf = [1]\<rparr>), ntchans = 1,
      closedLog = [], world = 2, maxChan = 1024\<rparr>"

definition pool_two_queued :: "(nat, nat, nat) CachePool" where
  "pool_two_queued =
     \<lparr>entries = (\<lambda>k. None)(7 := Some entry3), lastChecked = 0, sweeps = 0,
      cells = (\<lambda>c. None)
        (0 := Some \<lparr>lock = False, returnChan = 0, cv_value = 0, lastUsed = 0\<rparr>,
         1 := Some \<lparr>lock = False, returnChan = 0, cv_value = 1, lastUsed = 0\<rparr>),
      ncells = 2,
      vchans = (\<lambda>r. nil_chan)(0 := \<lparr>chan_cap = 3, chan_buf = [0, 1]\<rparr>), nvchans = 1,
      tchans = (\<lambda>r. nil_chan)(0 := \<lparr>chan_cap = 3, chan_buf = [1]\<rparr>), ntchans = 1,
      closedLog = [], world = 2, maxChan = 1024\<rparr>"


section \<open>Properties\<close>

subsection \<open>The loops over a channel\<close>

lemma drain_capacity_eq:
  "drain_capacity ch n = (ch\<lparr>chan_buf := []\<rparr>, n + int (length (chan_buf ch)))"
proof (induction "chan_buf ch" arbitrary: ch n)
  case Nil
  then show ?case by (subst drain_capacity.simps) (simp add: chan_recv_def)
next
  case (Cons t ts)
  from Cons.hyps(2) have b: "chan_buf ch = t # ts" by simp
  have "drain_capacity ch n = drain_capacity (ch\<lparr>chan_buf := ts\<rparr>) (n + 1)"
    by (subst drain_capacity.simps) (simp add: chan_recv_def b)
  also have "\<dots> = (ch\<lparr>chan_buf := []\<rparr>, n + 1 + int (length ts))"
    using Cons.hyps(1) [of "ch\<lparr>chan_buf := ts\<rparr>" "n + 1"] by simp
  finally show ?case by (simp add: b)
qed

lemma fill_loop_eq:
  "int (length (chan_buf ch)) + (n - i) \<le> chan_cap ch \<Longrightarrow>
   fill_loop i n ch = Some (ch\<lparr>chan_buf := chan_buf ch @ replicate (nat (n - i)) 1\<rparr>)"
proof (induction i n ch rule: fill_loop.induct)
  case (1 i n ch)
  show ?case
  proof (cases "i < n")
    case False
    then show ?thesis by (subst fill_loop.simps) simp
  next
    case True
    let ?ch = "ch\<lparr>chan_buf := chan_buf ch @ [1]\<rparr>"
    from True "1.prems" have s: "chan_send 1 ch = Some ?ch"
      by (simp add: chan_send_def)
    have "fill_loop (i + 1) n ?ch = Some (?ch\<lparr>chan_buf := chan_buf ?ch @ replicate (nat (n - (i + 1))) 1\<rparr>)"
      using "1.IH" [OF True s] "1.prems" by simp
    moreover have "nat (n - i) = Suc (nat (n - (i + 1)))" using True by simp
    ultimately show ?thesis
      by (subst fill_loop.simps) (simp add: True s replicate_append_same)
  qed
qed

lemma pool_one_in_use_reached:
  "AddAndAcquire rnd ctx 0 7 factory_ok 3 (NewLRUCache 1024 0 0) =
     Done (pool_one_in_use, Some 0, ReturnToCache 0, False, None)"
  apply (simp add: AddAndAcquire_def NewLRUCache_def sweepCheck_def Minute_def make_chan_def)
  apply (subst fill_loop.simps, simp add: chan_send_def)+
  apply (simp add: chan_recv_def createCacheValue_def factory_ok_def set_tchan_def set_cell_def
     handOut_def acquireFromCache_def pool_one_in_use_def entry3_def Let_def)
  done

subsection \<open>getAvailableCapacity\<close>

text \<open>
  C8. \<open>getAvailableCapacity\<close> returns exactly the number of tickets that are in the
  capacity channel of the entry, and when it returns the channel holds as many
  tickets as before: the call changes nothing but the buffer of that channel, which
  is drained and refilled with the same number of tickets. The hypothesis is what
  every Go channel satisfies: its buffer does not exceed its capacity.
\<close>

theorem getAvailableCapacity_counts_and_restores:
  assumes "int (length (chan_buf (tchans st (capacity ce)))) \<le> chan_cap (tchans st (capacity ce))"
  shows "\<exists>st'. getAvailableCapacity ce st =
                 Done (st', int (length (chan_buf (tchans st (capacity ce)))))
             \<and> length (chan_buf (tchans st' (capacity ce))) =
                 length (chan_buf (tchans st (capacity ce)))
             \<and> st' = set_tchan (capacity ce)
                       ((tchans st (capacity ce))
                          \<lparr>chan_buf := replicate (length (chan_buf (tchans st (capacity ce)))) 1\<rparr>) st"
  using assms
  by (simp add: getAvailableCapacity_def drain_capacity_eq fill_loop_eq set_tchan_def)

theorem getAvailableCapacity_counts_and_restores_witness:
  "\<exists>st'. getAvailableCapacity entry3 pool_one_in_use = Done (st', 2)
       \<and> length (chan_buf (tchans st' 0)) = 2
       \<and> st' = pool_one_in_use"
  using getAvailableCapacity_counts_and_restores [of pool_one_in_use entry3]
  by (simp add: pool_one_in_use_def entry3_def set_tchan_def)

lemma select_pick_mem: "select_pick rnd rs = Some x \<Longrightarrow> x \<in> set rs"
  by (auto simp: select_pick_def split: if_splits)

lemma ready_CtxDone [simp]: "CtxDone \<in> set (getValue_ready ctx ce st) \<longleftrightarrow> ctx \<noteq> None"
  by (simp add: getValue_ready_def)

lemma ready_FromAvailable [simp]:
  "FromAvailable \<in> set (getValue_ready ctx ce st) \<longleftrightarrow> chan_buf (vchans st (available ce)) \<noteq> []"
  by (simp add: getValue_ready_def)

lemma ready_FromCapacity [simp]:
  "FromCapacity \<in> set (getValue_ready ctx ce st) \<longleftrightarrow> chan_buf (tchans st (capacity ce)) \<noteq> []"
  by (simp add: getValue_ready_def)

lemma pool_failing_reached:
  "AddAndAcquire rnd ctx 0 7 factory_fail 3 (NewLRUCache 1024 0 0) =
     Done (pool_failing, None, NilReturnCapacityToCache, False, Some (Err ''dial''))"
  apply (simp add: AddAndAcquire_def NewLRUCache_def sweepCheck_def Minute_def make_chan_def)
  apply (subst fill_loop.simps, simp add: chan_send_def)+
  apply (simp add: chan_recv_def createCacheValue_def factory_fail_def set_tchan_def set_cell_def
     chan_send_def pool_failing_def entry_failing_def Let_def)
  done

subsection \<open>getValue\<close>

text \<open>
  C2. In \<open>getValue\<close>, when the \<open>select\<close> takes a capacity ticket and the factory
  then fails, the call returns the error of the factory with the no-op release, and
  one ticket is put back: the capacity channel has lost the ticket at its head and
  gained one at its end, so it holds as many as before, and nothing else of the
  pool has changed but the world of the factory. When the \<open>select\<close> takes the
  cancellation of the context, the call returns the error of the context and the
  pool, with its tickets, is unchanged.
\<close>

theorem getValue_failure_paths:
  "(select_pick rnd (getValue_ready ctx ce st) = Some FromCapacity
      \<and> createValue ce (world st) = (Inl err, w)
      \<and> int (length (chan_buf (tchans st (capacity ce)))) \<le> chan_cap (tchans st (capacity ce))
    \<longrightarrow> (\<exists>st'. getValue rnd ctx now ce st = Done (st', None, NilReturnCapacityToCache, Some err)
            \<and> chan_buf (tchans st' (capacity ce)) = tl (chan_buf (tchans st (capacity ce))) @ [1]
            \<and> length (chan_buf (tchans st' (capacity ce))) = length (chan_buf (tchans st (capacity ce)))
            \<and> st' = set_tchan (capacity ce)
                      ((tchans st (capacity ce))\<lparr>chan_buf := tl (chan_buf (tchans st (capacity ce))) @ [1]\<rparr>)
                      (st\<lparr>world := w\<rparr>)))
   \<and> (select_pick rnd (getValue_ready ctx ce st) = Some CtxDone
    \<longrightarrow> ctx \<noteq> None \<and> getValue rnd ctx now ce st = Done (st, None, NilReturnCapacityToCache, ctx))"
proof (intro conjI impI)
  assume a: "select_pick rnd (getValue_ready ctx ce st) = Some FromCapacity
      \<and> createValue ce (world st) = (Inl err, w)
      \<and> int (length (chan_buf (tchans st (capacity ce)))) \<le> chan_cap (tchans st (capacity ce))"
  then have "FromCapacity \<in> set (getValue_ready ctx ce st)"
    by (blast intro: select_pick_mem)
  then obtain t ts where b: "chan_buf (tchans st (capacity ce)) = t # ts"
    by (cases "chan_buf (tchans st (capacity ce))") auto
  show "\<exists>st'. getValue rnd ctx now ce st = Done (st', None, NilReturnCapacityToCache, Some err)
            \<and> chan_buf (tchans st' (capacity ce)) = tl (chan_buf (tchans st (capacity ce))) @ [1]
            \<and> length (chan_buf (tchans st' (capacity ce))) = length (chan_buf (tchans st (capacity ce)))
            \<and> st' = set_tchan (capacity ce)
                      ((tchans st (capacity ce))\<lparr>chan_buf := tl (chan_buf (tchans st (capacity ce))) @ [1]\<rparr>)
                      (st\<lparr>world := w\<rparr>)"
    using a b
    by (simp add: getValue_def chan_recv_def createCacheValue_def chan_send_def set_tchan_def)
next
  assume a: "select_pick rnd (getValue_ready ctx ce st) = Some CtxDone"
  then have "CtxDone \<in> set (getValue_ready ctx ce st)"
    by (blast intro: select_pick_mem)
  then show "ctx \<noteq> None" by simp
  then show "getValue rnd ctx now ce st = Done (st, None, NilReturnCapacityToCache, ctx)"
    using a by (auto simp: getValue_def)
qed

theorem getValue_failure_paths_witness:
  "(\<exists>st'. getValue 0 None 5 entry_failing pool_failing =
            Done (st', None, NilReturnCapacityToCache, Some (Err ''dial''))
        \<and> chan_buf (tchans st' 0) = [1, 1, 1]
        \<and> st' = pool_failing\<lparr>world := 2\<rparr>)
   \<and> getValue 0 (Some (Err ''context canceled'')) 5 entry_failing pool_failing =
        Done (pool_failing, None, NilReturnCapacityToCache, Some (Err ''context canceled''))"
  using getValue_failure_paths [of 0 None entry_failing pool_failing "Err ''dial''" 2 5]
    getValue_failure_paths [of 0 "Some (Err ''context canceled'')" entry_failing pool_failing]
  by (simp add: select_pick_def getValue_ready_def pool_failing_def entry_failing_def
      factory_fail_def set_tchan_def)

subsection \<open>What getValue leaves alone\<close>

lemma handOut_Done:
  "handOut now c st = Done (st', v, r, err) \<Longrightarrow>
     err = None \<and> r = ReturnToCache c \<and> entries st' = entries st
     \<and> vchans st' = vchans st \<and> tchans st' = tchans st"
  by (auto simp: handOut_def acquireFromCache_def set_cell_def split: option.splits if_splits)

lemma createCacheValue_frame:
  "createCacheValue ce st = (st', r) \<Longrightarrow>
     entries st' = entries st \<and> vchans st' = vchans st \<and> tchans st' = tchans st"
  by (auto simp: createCacheValue_def set_cell_def split: prod.splits sum.splits)

lemma chan_send_cap: "chan_send x ch = Some ch' \<Longrightarrow> chan_cap ch' = chan_cap ch"
  by (auto simp: chan_send_def split: if_splits)

lemma chan_recv_cap: "chan_recv ch = Some (x, ch') \<Longrightarrow> chan_cap ch' = chan_cap ch"
  by (auto simp: chan_recv_def split: list.splits)

lemma getValue_frame:
  assumes "getValue rnd ctx now ce st = Done (st', v, r, err)"
  shows "entries st' = entries st"
    and "chan_cap (vchans st' a) = chan_cap (vchans st a)"
    and "chan_cap (tchans st' a) = chan_cap (tchans st a)"
  using assms
  by (auto simp: getValue_def set_vchan_def set_tchan_def chan_send_def chan_recv_def
      split: option.splits select_case.splits prod.splits sum.splits if_splits list.splits
      dest!: handOut_Done createCacheValue_frame)

lemma getValue_error_result:
  "getValue rnd ctx now ce st = Done (st', v, r, Some e) \<Longrightarrow> v = None \<and> r = NilReturnCapacityToCache"
  by (auto simp: getValue_def
      split: option.splits select_case.splits prod.splits sum.splits dest: handOut_Done)

lemma fromEntry_getValue:
  "fromEntry (getValue rnd ctx now ce st) =
     (case getValue rnd ctx now ce st of
        Blocks \<Rightarrow> Blocks
      | Panics \<Rightarrow> Panics
      | Done (st1, v, r, err) \<Rightarrow> Done (st1, v, r, True, err))"
  by (auto simp: fromEntry_def invoke_def split: exec.splits option.splits dest: getValue_error_result)

lemma entries_sweepCheck [simp]: "entries (sweepCheck now st) = entries st"
  by (simp add: sweepCheck_def)

lemma vchans_sweepCheck [simp]: "vchans (sweepCheck now st) = vchans st"
  by (simp add: sweepCheck_def)

lemma tchans_sweepCheck [simp]: "tchans (sweepCheck now st) = tchans st"
  by (simp add: sweepCheck_def)

lemma returnToCache_entries:
  "returnToCache c st = Done st' \<Longrightarrow> entries st' = entries st"
  by (auto simp: returnToCache_def returnToCache_between_def returnToCache_send_def returnToCache_unlock_def
      set_vchan_def set_cell_def split: option.splits exec.splits if_splits)

lemma invoke_entries:
  "invoke r st = Done st' \<Longrightarrow> entries st' = entries st"
  by (cases r) (auto simp: invoke_def dest: returnToCache_entries)

lemma Get_entries:
  "Get rnd ctx now k st = Done (st', v, r, found, err) \<Longrightarrow> entries st' = entries st"
  by (auto simp: Get_def Let_def fromEntry_getValue split: option.splits exec.splits
      dest: getValue_frame(1))

lemma cleanupCell_entries:
  "cleanupCell now ce c st = Done (st', keep) \<Longrightarrow> entries st' = entries st"
  by (auto simp: cleanupCell_def Close_def set_tchan_def Let_def
      split: option.splits if_splits)

lemma getValidValuesAndCleanupOthers_entries:
  "getValidValuesAndCleanupOthers now ce sv st = Done (st', sv') \<Longrightarrow> entries st' = entries st"
proof (induction now ce sv st rule: getValidValuesAndCleanupOthers.induct)
  case (1 now ce sv st)
  show ?case
  proof (cases "chan_recv (vchans st (available ce))")
    case None
    with "1.prems" show ?thesis
      by (subst (asm) getValidValuesAndCleanupOthers.simps) simp
  next
    case (Some x)
    obtain c ch where x: "x = (c, ch)"
      by (cases x)
    from "1.prems" Some x obtain st1 keep where
      cc: "cleanupCell now ce c (set_vchan (available ce) ch st) = Done (st1, keep)"
      and rec: "getValidValuesAndCleanupOthers now ce (if keep then sv @ [c] else sv) st1
                  = Done (st', sv')"
      by (subst (asm) getValidValuesAndCleanupOthers.simps) (auto split: exec.splits)
    from "1.IH" [OF Some x [symmetric] cc refl rec] cleanupCell_entries [OF cc]
    show ?thesis
      by (simp add: set_vchan_def)
  qed
qed

lemma getAvailableCapacity_entries:
  "getAvailableCapacity ce st = Done (st', n) \<Longrightarrow> entries st' = entries st"
  by (auto simp: getAvailableCapacity_def set_tchan_def split: prod.splits option.splits)

lemma cleanupValues_entries:
  "cleanupValues now ce st = Done (st', noneLeft) \<Longrightarrow> entries st' = entries st"
  by (auto simp: cleanupValues_def set_vchan_def split: exec.splits option.splits
      dest!: getValidValuesAndCleanupOthers_entries getAvailableCapacity_entries)

lemma AddAndAcquire_other_key:
  assumes "k' \<noteq> k" and "AddAndAcquire rnd ctx now k' f n st = Done (st', v, r, existed, err)"
  shows "entries st' k = entries st k"
proof (cases "entries st k'")
  case (Some entry)
  with assms(2) show ?thesis
    by (auto simp: AddAndAcquire_def Let_def fromEntry_getValue split: exec.splits
        dest: getValue_frame(1))
next
  case None
  with assms show ?thesis
    by (auto simp: AddAndAcquire_def Let_def make_chan_def set_tchan_def
        split: option.splits exec.splits prod.splits sum.splits if_splits
        dest!: createCacheValue_frame handOut_Done)
qed

subsection \<open>AddAndAcquire on a key that has an entry\<close>

text \<open>
  C10. When \<open>AddAndAcquire\<close> is called with a key that has an entry, the factory
  and the cap it is given are not used: the call is \<open>getValue\<close> on that entry
  (after the check for a sweep), with \<open>true\<close> as the third result, and any other
  factory and cap give the same outcome. When it returns, the map is unchanged, so
  the entry still has the factory, the cap and the two channels it had, and those
  channels have the capacities they had. Of the other operations, \<open>Get\<close>, a
  release and \<open>cleanupValues\<close> leave the map unchanged as well, and an
  \<open>AddAndAcquire\<close> for another key leaves the map at this key unchanged: the fields
  of an entry are assigned by \<open>UpdateIfExists\<close> only.
\<close>

theorem AddAndAcquire_existing_key:
  assumes "entries st k = Some entry"
  shows "AddAndAcquire rnd ctx now k f n st =
           (case getValue rnd ctx now entry (sweepCheck now st) of
              Blocks \<Rightarrow> Blocks
            | Panics \<Rightarrow> Panics
            | Done (st1, v, r, err) \<Rightarrow> Done (st1, v, r, True, err))
       \<and> AddAndAcquire rnd ctx now k f n st = AddAndAcquire rnd ctx now k f' n' st
       \<and> (AddAndAcquire rnd ctx now k f n st = Done (st', v, r, existed, err) \<longrightarrow>
           existed \<and> entries st' = entries st \<and> entries st' k = Some entry
           \<and> chan_cap (vchans st' (available entry)) = chan_cap (vchans st (available entry))
           \<and> chan_cap (tchans st' (capacity entry)) = chan_cap (tchans st (capacity entry)))
       \<and> (Get rnd' ctx' now' k' st = Done (st', v, r, existed, err) \<longrightarrow> entries st' = entries st)
       \<and> (invoke r st = Done st' \<longrightarrow> entries st' = entries st)
       \<and> (cleanupValues now' entry st = Done (st', existed) \<longrightarrow> entries st' = entries st)
       \<and> (k' \<noteq> k \<and> AddAndAcquire rnd' ctx' now' k' f' n' st = Done (st', v, r, existed, err)
            \<longrightarrow> entries st' k = Some entry)"
proof -
  have g: "AddAndAcquire rnd ctx now k f n st =
           (case getValue rnd ctx now entry (sweepCheck now st) of
              Blocks \<Rightarrow> Blocks
            | Panics \<Rightarrow> Panics
            | Done (st1, v, r, err) \<Rightarrow> Done (st1, v, r, True, err))" for f n
    using assms by (simp add: AddAndAcquire_def fromEntry_getValue)
  have h: "AddAndAcquire rnd ctx now k f n st = AddAndAcquire rnd ctx now k f' n' st"
    by (simp add: g)
  have i: "AddAndAcquire rnd ctx now k f n st = Done (st', v, r, existed, err) \<longrightarrow>
           existed \<and> entries st' = entries st \<and> entries st' k = Some entry
           \<and> chan_cap (vchans st' (available entry)) = chan_cap (vchans st (available entry))
           \<and> chan_cap (tchans st' (capacity entry)) = chan_cap (tchans st (capacity entry))"
    using assms by (auto simp: g split: exec.splits dest: getValue_frame)
  have o: "k' \<noteq> k \<and> AddAndAcquire rnd' ctx' now' k' f' n' st = Done (st', v, r, existed, err)
            \<longrightarrow> entries st' k = Some entry"
    using assms by (auto dest: AddAndAcquire_other_key)
  have j1: "Get rnd' ctx' now' k' st = Done (st', v, r, existed, err) \<longrightarrow> entries st' = entries st"
    by (auto dest: Get_entries)
  have j2: "invoke r st = Done st' \<longrightarrow> entries st' = entries st"
    by (auto dest: invoke_entries)
  have j3: "cleanupValues now' entry st = Done (st', existed) \<longrightarrow> entries st' = entries st"
    by (auto dest: cleanupValues_entries)
  show ?thesis
    by (rule conjI [OF g conjI [OF h conjI [OF i conjI [OF j1 conjI [OF j2 conjI [OF j3 o]]]]]])
qed

theorem AddAndAcquire_existing_key_witness:
  "AddAndAcquire 0 None 5 7 factory_fail (- 5) pool_one_in_use =
     AddAndAcquire 0 None 5 7 factory_ok 3 pool_one_in_use
   \<and> (\<exists>st'. AddAndAcquire 0 None 5 7 factory_fail (- 5) pool_one_in_use =
              Done (st', Some 1, ReturnToCache 1, True, None)
          \<and> entries st' 7 = Some entry3
          \<and> chan_cap (vchans st' 0) = 3 \<and> chan_cap (tchans st' 0) = 3
          \<and> chan_buf (tchans st' 0) = [1])"
proof -
  have e: "entries pool_one_in_use 7 = Some entry3"
    by (simp add: pool_one_in_use_def)
  have sw: "sweepCheck 5 pool_one_in_use = pool_one_in_use"
    by (simp add: sweepCheck_def Minute_def pool_one_in_use_def)
  have rd: "getValue_ready None entry3 pool_one_in_use = [FromCapacity]"
    by (simp add: getValue_ready_def pool_one_in_use_def entry3_def)
  have g: "getValue 0 None 5 entry3 (sweepCheck 5 pool_one_in_use) =
             Done (set_cell 1 \<lparr>lock = True, returnChan = 0, cv_value = 1, lastUsed = 5\<rparr>
                     (set_tchan 0 \<lparr>chan_cap = 3, chan_buf = [1]\<rparr> pool_one_in_use\<lparr>world := 2, ncells := 2\<rparr>),
                   Some 1, ReturnToCache 1, None)"
    unfolding sw
    apply (simp add: getValue_def rd select_pick_def)
    apply (simp add: pool_one_in_use_def entry3_def chan_recv_def createCacheValue_def
        factory_ok_def handOut_def acquireFromCache_def set_cell_def set_tchan_def)
    done
  note t = AddAndAcquire_existing_key [OF e, of 0 None 5 factory_fail "- 5" factory_ok 3]
  have a: "AddAndAcquire 0 None 5 7 factory_fail (- 5) pool_one_in_use =
             Done (set_cell 1 \<lparr>lock = True, returnChan = 0, cv_value = 1, lastUsed = 5\<rparr>
                     (set_tchan 0 \<lparr>chan_cap = 3, chan_buf = [1]\<rparr> pool_one_in_use\<lparr>world := 2, ncells := 2\<rparr>),
                   Some 1, ReturnToCache 1, True, None)"
    by (simp add: t [THEN conjunct1] g)
  have b: "AddAndAcquire 0 None 5 7 factory_fail (- 5) pool_one_in_use =
             AddAndAcquire 0 None 5 7 factory_ok 3 pool_one_in_use"
    by (rule t [THEN conjunct2, THEN conjunct1])
  show ?thesis
    by (rule conjI [OF b]) (simp add: a; simp add: set_cell_def set_tchan_def pool_one_in_use_def)
qed

lemma replicate_nat_pos: "1 \<le> n \<Longrightarrow> replicate (nat n) x = x # replicate (nat n - 1) x"
  by (cases "nat n") auto

lemma world_sweepCheck [simp]: "world (sweepCheck now st) = world st"
  by (simp add: sweepCheck_def)

lemma cells_sweepCheck [simp]: "cells (sweepCheck now st) = cells st"
  by (simp add: sweepCheck_def)

lemma ncells_sweepCheck [simp]: "ncells (sweepCheck now st) = ncells st"
  by (simp add: sweepCheck_def)

lemma nvchans_sweepCheck [simp]: "nvchans (sweepCheck now st) = nvchans st"
  by (simp add: sweepCheck_def)

lemma ntchans_sweepCheck [simp]: "ntchans (sweepCheck now st) = ntchans st"
  by (simp add: sweepCheck_def)

lemma closedLog_sweepCheck [simp]: "closedLog (sweepCheck now st) = closedLog st"
  by (simp add: sweepCheck_def)

lemma maxChan_sweepCheck [simp]: "maxChan (sweepCheck now st) = maxChan st"
  by (simp add: sweepCheck_def)

lemma AddAndAcquire_new_key:
  assumes "entries st k = None" and "1 \<le> cap" and "cap \<le> maxChan st"
  shows "AddAndAcquire rnd ctx now k f cap st =
           (case f (world st) of
              (Inl err, w) \<Rightarrow>
                Done ((installed now k f cap (nat cap) st)\<lparr>world := w\<rparr>,
                      None, NilReturnCapacityToCache, False, Some err)
            | (Inr v, w) \<Rightarrow>
                Done ((installed now k f cap (nat cap - 1) st)
                        \<lparr>world := w, ncells := Suc (ncells st),
                         cells := (cells st)(ncells st :=
                            Some \<lparr>lock = True, returnChan = nvchans st, cv_value = v, lastUsed = now\<rparr>)\<rparr>,
                      Some v, ReturnToCache (ncells st), False, None))"
proof (cases "f (world st)")
  case (Pair r w)
  show ?thesis
  proof (cases r)
    case (Inl err)
    with Pair assms show ?thesis
      by (simp add: AddAndAcquire_def make_chan_def fill_loop_eq Let_def chan_recv_def
          replicate_nat_pos createCacheValue_def set_tchan_def chan_send_def
          installed_def replicate_append_same)
  next
    case (Inr v)
    with Pair assms show ?thesis
      by (simp add: AddAndAcquire_def make_chan_def fill_loop_eq Let_def chan_recv_def
          replicate_nat_pos createCacheValue_def set_tchan_def set_cell_def
          handOut_def acquireFromCache_def installed_def)
  qed
qed

lemma AddAndAcquire_new_key_cap_zero:
  "entries st k = None \<Longrightarrow> 0 \<le> maxChan st \<Longrightarrow> AddAndAcquire rnd ctx now k f 0 st = Blocks"
  by (simp add: AddAndAcquire_def make_chan_def fill_loop_eq Let_def chan_recv_def)

lemma AddAndAcquire_new_key_cap_negative:
  "entries st k = None \<Longrightarrow> cap < 0 \<Longrightarrow> AddAndAcquire rnd ctx now k f cap st = Panics"
  by (simp add: AddAndAcquire_def make_chan_def Let_def)

lemma AddAndAcquire_new_key_cap_too_large:
  "entries st k = None \<Longrightarrow> maxChan st < cap \<Longrightarrow> AddAndAcquire rnd ctx now k f cap st = Panics"
  by (simp add: AddAndAcquire_def make_chan_def Let_def)

lemma getValue_only_capacity:
  assumes "chan_buf (vchans st (available ce)) = []"
    and "chan_buf (tchans st (capacity ce)) = 1 # ts"
    and "int (length ts) < chan_cap (tchans st (capacity ce))"
  shows "outcome (getValue rnd None now ce st) =
           (case fst (createValue ce (world st)) of
              Inl e \<Rightarrow> Done (None, NilReturnCapacityToCache, Some e)
            | Inr v \<Rightarrow> Done (Some v, ReturnToCache (ncells st), None))"
proof -
  have "getValue_ready None ce st = [FromCapacity]"
    using assms by (simp add: getValue_ready_def)
  then have p: "select_pick rnd (getValue_ready None ce st) = Some FromCapacity"
    by (simp add: select_pick_def)
  show ?thesis
  proof (cases "createValue ce (world st)")
    case (Pair r w)
    then show ?thesis using assms
      by (cases r)
         (simp_all add: getValue_def p chan_recv_def createCacheValue_def set_tchan_def
            chan_send_def outcome_def handOut_def acquireFromCache_def set_cell_def)
  qed
qed

lemma AddAndAcquire_found:
  "entries st k = Some entry \<Longrightarrow>
   AddAndAcquire rnd ctx now k f n st =
     (case getValue rnd ctx now entry (sweepCheck now st) of
        Blocks \<Rightarrow> Blocks
      | Panics \<Rightarrow> Panics
      | Done (st1, v, r, err) \<Rightarrow> Done (st1, v, r, True, err))"
  by (simp add: AddAndAcquire_def fromEntry_getValue)

lemma outcome_AddAndAcquire_found:
  "entries st k = Some entry \<Longrightarrow>
   outcome (AddAndAcquire rnd ctx now k f n st) =
     (case outcome (getValue rnd ctx now entry (sweepCheck now st)) of
        Blocks \<Rightarrow> Blocks
      | Panics \<Rightarrow> Panics
      | Done (v, r, err) \<Rightarrow> Done (v, r, True, err))"
  by (simp add: AddAndAcquire_found outcome_def split: exec.splits)

lemma getValue_ready_sweepCheck [simp]:
  "getValue_ready ctx ce (sweepCheck now st) = getValue_ready ctx ce st"
  by (simp add: getValue_ready_def)

lemma getValue_from_available:
  assumes "select_pick rnd (getValue_ready ctx ce st) = Some FromAvailable"
    and "chan_buf (vchans st (available ce)) = c # cs"
    and "cells st c = Some cv" and "\<not> lock cv"
  shows "getValue rnd ctx now ce st =
           Done (set_cell c (cv\<lparr>lock := True, lastUsed := now\<rparr>)
                   (set_vchan (available ce) ((vchans st (available ce))\<lparr>chan_buf := cs\<rparr>) st),
                 Some (cv_value cv), ReturnToCache c, None)"
  using assms
  by (simp add: getValue_def chan_recv_def handOut_def acquireFromCache_def set_vchan_def
      set_cell_def)

lemma getValue_from_capacity:
  assumes "select_pick rnd (getValue_ready ctx ce st) = Some FromCapacity"
    and "chan_buf (tchans st (capacity ce)) = t # ts"
  shows "getValue rnd ctx now ce st =
           (case createValue ce (world st) of
              (Inl e, w) \<Rightarrow>
                (if int (length ts) < chan_cap (tchans st (capacity ce))
                 then Done (set_tchan (capacity ce)
                              ((tchans st (capacity ce))\<lparr>chan_buf := ts @ [1]\<rparr>) (st\<lparr>world := w\<rparr>),
                            None, NilReturnCapacityToCache, Some e)
                 else Blocks)
            | (Inr v, w) \<Rightarrow>
                Done (set_cell (ncells st)
                        \<lparr>lock = True, returnChan = available ce, cv_value = v, lastUsed = now\<rparr>
                        (set_tchan (capacity ce) ((tchans st (capacity ce))\<lparr>chan_buf := ts\<rparr>)
                           (st\<lparr>world := w, ncells := Suc (ncells st)\<rparr>)),
                      Some v, ReturnToCache (ncells st), None))"
proof (cases "createValue ce (world st)")
  case (Pair r w)
  then show ?thesis using assms
    by (cases r)
       (simp_all add: getValue_def chan_recv_def createCacheValue_def set_tchan_def
          chan_send_def handOut_def acquireFromCache_def set_cell_def)
qed

lemma returnToCache_eq:
  assumes "cells st c = Some cv" and "lock cv"
    and "int (length (chan_buf (vchans st (returnChan cv)))) < chan_cap (vchans st (returnChan cv))"
  shows "returnToCache c st =
           Done (set_cell c (cv\<lparr>lock := False\<rparr>)
                   (set_vchan (returnChan cv)
                      ((vchans st (returnChan cv))\<lparr>chan_buf := chan_buf (vchans st (returnChan cv)) @ [c]\<rparr>)
                      st))"
  using assms
  by (simp add: returnToCache_def returnToCache_between_def returnToCache_send_def returnToCache_unlock_def chan_send_def
      set_vchan_def set_cell_def)

lemma Get_found:
  "entries st k = Some entry \<Longrightarrow>
   Get rnd ctx now k st =
     (case getValue rnd ctx now entry (sweepCheck now st) of
        Blocks \<Rightarrow> Blocks
      | Panics \<Rightarrow> Panics
      | Done (st1, v, r, err) \<Rightarrow> Done (st1, v, r, True, err))"
  by (simp add: Get_def fromEntry_getValue)

lemma outcome_Get_found:
  "entries st k = Some entry \<Longrightarrow>
   outcome (Get rnd ctx now k st) =
     (case outcome (getValue rnd ctx now entry (sweepCheck now st)) of
        Blocks \<Rightarrow> Blocks
      | Panics \<Rightarrow> Panics
      | Done (v, r, err) \<Rightarrow> Done (v, r, True, err))"
  by (simp add: Get_found outcome_def split: exec.splits)

subsection \<open>Release, then Get\<close>

text \<open>
  C9, as amended. Let \<open>AddAndAcquire(k, f, n)\<close> install the entry of a key that had
  none, with a cap of at least one that \<open>make\<close> accepts and a factory that succeeds.
  The release it
  returns puts the cell in the available queue. In a \<open>Get(k)\<close> that follows at once,
  under a context that is not done, the idle cell can be taken, and when \<open>n\<close> is two
  or more a capacity ticket can be taken as well. When the \<open>select\<close> takes the idle
  cell, which it must when \<open>n\<close> is one, \<open>Get\<close> returns the cell that was just
  released; when it takes a ticket, \<open>Get\<close> calls the factory and returns a new cell
  or the error of the factory.
\<close>

theorem release_then_Get:
  assumes "entries st k = None" and "1 \<le> n" and "n \<le> maxChan st" and "f (world st) = (Inr v, w)"
  shows "\<exists>st1 st2 entry.
           AddAndAcquire rnd ctx now k f n st =
             Done (st1, Some v, ReturnToCache (ncells st), False, None)
         \<and> invoke (ReturnToCache (ncells st)) st1 = Done st2
         \<and> entries st2 k = Some entry
         \<and> getValue_ready None entry st2 =
             (if 2 \<le> n then [FromAvailable, FromCapacity] else [FromAvailable])
         \<and> (select_pick rnd' (getValue_ready None entry st2) = Some FromAvailable \<longrightarrow>
              outcome (Get rnd' None now' k st2) =
                Done (Some v, ReturnToCache (ncells st), True, None))
         \<and> (n = 1 \<longrightarrow>
              outcome (Get rnd' None now' k st2) =
                Done (Some v, ReturnToCache (ncells st), True, None))
         \<and> (select_pick rnd' (getValue_ready None entry st2) = Some FromCapacity \<longrightarrow>
              outcome (Get rnd' None now' k st2) =
                (case fst (f w) of
                   Inl e \<Rightarrow> Done (None, NilReturnCapacityToCache, True, Some e)
                 | Inr v' \<Rightarrow> Done (Some v', ReturnToCache (Suc (ncells st)), True, None)))"
proof -
  let ?c = "ncells st"
  let ?entry = "\<lparr>available = nvchans st, capacity = ntchans st, maxCapacity = n,
                  createValue = f, key = k\<rparr>"
  let ?cv = "\<lparr>lock = True, returnChan = nvchans st, cv_value = v, lastUsed = now\<rparr>"
  let ?st1 = "(installed now k f n (nat n - 1) st)
                \<lparr>world := w, ncells := Suc ?c, cells := (cells st)(?c := Some ?cv)\<rparr>"
  let ?st2 = "set_cell ?c (?cv\<lparr>lock := False\<rparr>)
                (set_vchan (nvchans st) \<lparr>chan_cap = n, chan_buf = [?c]\<rparr> ?st1)"
  have a: "AddAndAcquire rnd ctx now k f n st = Done (?st1, Some v, ReturnToCache ?c, False, None)"
    using assms by (simp add: AddAndAcquire_new_key)
  have c1: "cells ?st1 ?c = Some ?cv"
    by (simp add: installed_def)
  have "returnToCache ?c ?st1 = Done ?st2"
    using assms(2)
    by (subst returnToCache_eq [OF c1]) (simp_all add: installed_def)
  then have b: "invoke (ReturnToCache ?c) ?st1 = Done ?st2"
    by (simp add: invoke_def)
  have e: "entries ?st2 k = Some ?entry"
    by (simp add: installed_def set_cell_def set_vchan_def)
  have av: "chan_buf (vchans ?st2 (available ?entry)) = [?c]"
    by (simp add: installed_def set_cell_def set_vchan_def)
  have tk: "tchans ?st2 (capacity ?entry) = \<lparr>chan_cap = n, chan_buf = replicate (nat n - 1) 1\<rparr>"
    by (simp add: installed_def set_cell_def set_vchan_def)
  have c2: "cells ?st2 ?c = Some (?cv\<lparr>lock := False\<rparr>)"
    by (simp add: set_cell_def)
  have rd: "getValue_ready None ?entry ?st2 =
              (if 2 \<le> n then [FromAvailable, FromCapacity] else [FromAvailable])"
    unfolding getValue_ready_def av tk using assms(2) by simp arith
  have fa: "outcome (Get rnd' None now' k ?st2) = Done (Some v, ReturnToCache ?c, True, None)"
    if p: "select_pick rnd' (getValue_ready None ?entry ?st2) = Some FromAvailable"
  proof -
    have p': "select_pick rnd' (getValue_ready None ?entry (sweepCheck now' ?st2)) = Some FromAvailable"
      using p by simp
    have av': "chan_buf (vchans (sweepCheck now' ?st2) (available ?entry)) = [?c]"
      using av by simp
    have c2': "cells (sweepCheck now' ?st2) ?c = Some (?cv\<lparr>lock := False\<rparr>)"
      using c2 by simp
    have nl: "\<not> lock (?cv\<lparr>lock := False\<rparr>)"
      by simp
    have "outcome (getValue rnd' None now' ?entry (sweepCheck now' ?st2)) =
            Done (Some v, ReturnToCache ?c, None)"
      unfolding getValue_from_available [OF p' av' c2' nl] outcome_def by simp
    then show ?thesis
      unfolding outcome_Get_found [OF e] by simp
  qed
  have one: "outcome (Get rnd' None now' k ?st2) = Done (Some v, ReturnToCache ?c, True, None)"
    if "n = 1"
  proof (rule fa)
    show "select_pick rnd' (getValue_ready None ?entry ?st2) = Some FromAvailable"
      unfolding rd using that by (simp add: select_pick_def)
  qed
  have fc: "outcome (Get rnd' None now' k ?st2) =
              (case fst (f w) of
                 Inl e \<Rightarrow> Done (None, NilReturnCapacityToCache, True, Some e)
               | Inr v' \<Rightarrow> Done (Some v', ReturnToCache (Suc ?c), True, None))"
    if p: "select_pick rnd' (getValue_ready None ?entry ?st2) = Some FromCapacity"
  proof -
    from p have "FromCapacity \<in> set (getValue_ready None ?entry ?st2)"
      by (rule select_pick_mem)
    then have n2: "2 \<le> n"
      unfolding rd by (simp split: if_splits)
    then have tb: "chan_buf (tchans (sweepCheck now' ?st2) (capacity ?entry)) =
                     1 # replicate (nat n - 2) 1"
      unfolding tchans_sweepCheck tk by (cases "nat n - 1") (auto simp: nat_diff_distrib)
    have p': "select_pick rnd' (getValue_ready None ?entry (sweepCheck now' ?st2)) = Some FromCapacity"
      using p by simp
    have w2: "world (sweepCheck now' ?st2) = w"
      by (simp add: set_cell_def set_vchan_def)
    have nc: "ncells (sweepCheck now' ?st2) = Suc ?c"
      by (simp add: set_cell_def set_vchan_def)
    have cp: "chan_cap (tchans (sweepCheck now' ?st2) (capacity ?entry)) = n"
      unfolding tchans_sweepCheck tk by simp
    have "outcome (getValue rnd' None now' ?entry (sweepCheck now' ?st2)) =
            (case fst (f w) of
               Inl e \<Rightarrow> Done (None, NilReturnCapacityToCache, Some e)
             | Inr v' \<Rightarrow> Done (Some v', ReturnToCache (Suc ?c), None))"
      unfolding getValue_from_capacity [OF p' tb] w2 nc cp outcome_def
      using n2 by (simp add: nat_diff_distrib split: prod.splits sum.splits)
    then show ?thesis
      unfolding outcome_Get_found [OF e] by (simp split: sum.splits)
  qed
  show ?thesis
    using a b e rd fa one fc by blast
qed

theorem release_then_Get_witness:
  "\<exists>st1 st2. AddAndAcquire 0 None 0 7 factory_ok 1 (NewLRUCache 1024 0 0 :: (nat, nat, nat) CachePool) =
               Done (st1, Some 0, ReturnToCache 0, False, None)
           \<and> invoke (ReturnToCache 0) st1 = Done st2
           \<and> outcome (Get 5 None 0 7 st2) = Done (Some 0, ReturnToCache 0, True, None)"
proof -
  let ?st = "NewLRUCache 1024 0 0 :: (nat, nat, nat) CachePool"
  have h1: "entries ?st 7 = None"
    by (simp add: NewLRUCache_def)
  have h2: "(1::int) \<le> 1"
    by simp
  have h3: "factory_ok (world ?st) = (Inr 0, 1)"
    by (simp add: NewLRUCache_def factory_ok_def)
  have h4: "1 \<le> maxChan ?st"
    by (simp add: NewLRUCache_def)
  have c: "ncells ?st = 0"
    by (simp add: NewLRUCache_def)
  from release_then_Get [where st = ?st and k = 7 and n = 1 and f = factory_ok and v = 0
      and w = 1 and rnd = 0 and ctx = None and now = 0 and rnd' = 5 and now' = 0, OF h1 h2 h4 h3]
  show ?thesis
    unfolding c by blast
qed

lemma pool_one_idle_busy:
  "AddAndAcquire 1 None 0 7 factory_ok 3 pool_one_idle =
     Done (pool_two_busy, Some 1, ReturnToCache 1, True, None)"
  by (simp add: AddAndAcquire_def sweepCheck_def Minute_def fromEntry_def getValue_def
      getValue_ready_def select_pick_def chan_recv_def createCacheValue_def set_tchan_def
      set_cell_def handOut_def acquireFromCache_def pool_one_idle_def pool_two_busy_def
      entry3_def factory_ok_def; auto simp: fun_eq_iff)

lemma pool_two_busy_queued:
  "invoke (ReturnToCache 1) pool_two_busy = Done pool_two_queued"
  by (simp add: invoke_def returnToCache_def returnToCache_between_def returnToCache_send_def returnToCache_unlock_def
      chan_send_def set_vchan_def set_cell_def pool_two_busy_def pool_two_queued_def;
      auto simp: fun_eq_iff)

lemma pool_two_queued_Get:
  "outcome (Get 0 None 0 7 pool_two_queued) = Done (Some 0, ReturnToCache 0, True, None)"
  by (simp add: outcome_def Get_def sweepCheck_def Minute_def fromEntry_def getValue_def
      getValue_ready_def select_pick_def chan_recv_def set_vchan_def
      set_cell_def handOut_def acquireFromCache_def pool_two_queued_def entry3_def)

text \<open>
  C9 as it was stated fails for a cap of two or more: after the release both the
  idle cell and a capacity ticket can be taken, and when the \<open>select\<close> takes the
  ticket \<open>Get\<close> returns a cell that the factory has just made, not the one released.
  It fails as well for a key whose entry has an idle cell already: the queue is first
  in, first out, so the cell just released stands behind the older one, and a \<open>Get\<close>
  that takes an idle cell returns the older one.
\<close>

theorem release_then_Get_counterexample:
  "AddAndAcquire 0 None 0 7 factory_ok 3 (NewLRUCache 1024 0 0) =
     Done (pool_one_in_use, Some 0, ReturnToCache 0, False, None)
   \<and> invoke (ReturnToCache 0) pool_one_in_use = Done pool_one_idle
   \<and> getValue_ready None entry3 pool_one_idle = [FromAvailable, FromCapacity]
   \<and> outcome (Get 1 None 0 7 pool_one_idle) = Done (Some 1, ReturnToCache 1, True, None)
   \<and> AddAndAcquire 1 None 0 7 factory_ok 3 pool_one_idle =
     Done (pool_two_busy, Some 1, ReturnToCache 1, True, None)
   \<and> invoke (ReturnToCache 1) pool_two_busy = Done pool_two_queued
   \<and> outcome (Get 0 None 0 7 pool_two_queued) = Done (Some 0, ReturnToCache 0, True, None)"
proof -
  have r: "invoke (ReturnToCache 0) pool_one_in_use = Done pool_one_idle"
    by (simp add: invoke_def returnToCache_def returnToCache_between_def returnToCache_send_def returnToCache_unlock_def
        pool_one_in_use_def pool_one_idle_def chan_send_def set_vchan_def set_cell_def)
  have e: "entries pool_one_idle 7 = Some entry3"
    by (simp add: pool_one_idle_def)
  have sw: "sweepCheck 0 pool_one_idle = pool_one_idle"
    by (simp add: sweepCheck_def Minute_def pool_one_idle_def)
  have rd: "getValue_ready None entry3 pool_one_idle = [FromAvailable, FromCapacity]"
    by (simp add: getValue_ready_def pool_one_idle_def entry3_def)
  have p: "select_pick 1 (getValue_ready None entry3 pool_one_idle) = Some FromCapacity"
    by (simp add: rd select_pick_def)
  have t: "chan_buf (tchans pool_one_idle (capacity entry3)) = [1, 1]"
    by (simp add: pool_one_idle_def entry3_def)
  have g: "outcome (getValue 1 None 0 entry3 pool_one_idle) = Done (Some 1, ReturnToCache 1, None)"
    unfolding getValue_from_capacity [OF p t] outcome_def
    by (simp add: entry3_def factory_ok_def pool_one_idle_def)
  have "outcome (Get 1 None 0 7 pool_one_idle) = Done (Some 1, ReturnToCache 1, True, None)"
    unfolding outcome_Get_found [OF e] sw g by simp
  with pool_one_in_use_reached r rd pool_one_idle_busy pool_two_busy_queued pool_two_queued_Get
  show ?thesis
    by blast
qed

lemma expired_cells: "cells st' = cells st \<Longrightarrow> expired now st' = expired now st"
  by (simp add: expired_def fun_eq_iff)

lemma valuesOf_cells: "cells st' = cells st \<Longrightarrow> valuesOf st' = valuesOf st"
  by (simp add: valuesOf_def fun_eq_iff)

lemma allIdle_cells: "cells st' = cells st \<Longrightarrow> allIdle st' = allIdle st"
  by (simp add: allIdle_def fun_eq_iff)

lemma valuesOf_Nil [simp]: "valuesOf st [] = []"
  by (simp add: valuesOf_def)

lemma valuesOf_Cons:
  "cells st c = Some cv \<Longrightarrow> valuesOf st (c # cs) = cv_value cv # valuesOf st cs"
  by (simp add: valuesOf_def map_filter_simps)

lemma chan_buf_same: "chan_buf ch = b \<Longrightarrow> ch\<lparr>chan_buf := b\<rparr> = ch"
  by simp

lemma cleanupCell_eq:
  assumes "cells st c = Some cv" and "\<not> lock cv"
    and "expired now st c \<longrightarrow>
           int (length (chan_buf (tchans st (capacity ce)))) < chan_cap (tchans st (capacity ce))"
  shows "cleanupCell now ce c st =
           (if expired now st c
            then Done (st\<lparr>tchans := (tchans st)(capacity ce :=
                             (tchans st (capacity ce))\<lparr>chan_buf := chan_buf (tchans st (capacity ce)) @ [1]\<rparr>),
                           closedLog := closedLog st @ [cv_value cv]\<rparr>, False)
            else Done (st, True))"
  using assms
  by (simp add: cleanupCell_def expired_def Close_def chan_send_def set_tchan_def)

lemma getValidValuesAndCleanupOthers_eq:
  assumes "chan_buf (vchans st (available ce)) = bs"
    and "allIdle st bs"
    and "int (length (chan_buf (tchans st (capacity ce)))) + int (length (filter (expired now st) bs))
           \<le> chan_cap (tchans st (capacity ce))"
  shows "getValidValuesAndCleanupOthers now ce sv st =
           Done (st\<lparr>vchans := (vchans st)(available ce := (vchans st (available ce))\<lparr>chan_buf := []\<rparr>),
                    tchans := (tchans st)(capacity ce :=
                       (tchans st (capacity ce))
                         \<lparr>chan_buf := chan_buf (tchans st (capacity ce))
                                        @ replicate (length (filter (expired now st) bs)) 1\<rparr>),
                    closedLog := closedLog st @ valuesOf st (filter (expired now st) bs)\<rparr>,
                 sv @ filter (\<lambda>c. \<not> expired now st c) bs)"
  using assms
proof (induction bs arbitrary: st sv)
  case Nil
  then have "(vchans st (available ce))\<lparr>chan_buf := []\<rparr> = vchans st (available ce)"
    by simp
  then have "st\<lparr>vchans := (vchans st)(available ce := (vchans st (available ce))\<lparr>chan_buf := []\<rparr>)\<rparr> = st"
    by (simp only: fun_upd_triv) simp
  with Nil show ?case
    by (subst getValidValuesAndCleanupOthers.simps) (simp add: chan_recv_def)
next
  case (Cons c cs)
  let ?a = "available ce" and ?t = "capacity ce"
  from Cons.prems(2) obtain cv where cv: "cells st c = Some cv" "\<not> lock cv"
    and idle: "allIdle st cs"
    by (auto simp: allIdle_def split: option.splits)
  let ?st0 = "set_vchan ?a ((vchans st ?a)\<lparr>chan_buf := cs\<rparr>) st"
  have rc: "chan_recv (vchans st ?a) = Some (c, (vchans st ?a)\<lparr>chan_buf := cs\<rparr>)"
    using Cons.prems(1) by (simp add: chan_recv_def)
  have cells0: "cells ?st0 = cells st"
    by (simp add: set_vchan_def)
  have ex0: "expired now ?st0 = expired now st"
    by (rule expired_cells [OF cells0])
  show ?case
  proof (cases "expired now st c")
    case True
    let ?st1 = "?st0\<lparr>tchans := (tchans ?st0)(?t :=
                    (tchans ?st0 ?t)\<lparr>chan_buf := chan_buf (tchans ?st0 ?t) @ [1]\<rparr>),
                  closedLog := closedLog ?st0 @ [cv_value cv]\<rparr>"
    have cc: "cleanupCell now ce c ?st0 = Done (?st1, False)"
      using cv True Cons.prems(3)
      by (subst cleanupCell_eq [where cv = cv]) (simp_all add: ex0, simp_all add: set_vchan_def)
    have cells1: "cells ?st1 = cells st"
      by (simp add: set_vchan_def)
    have ih: "getValidValuesAndCleanupOthers now ce sv ?st1 =
           Done (?st1\<lparr>vchans := (vchans ?st1)(?a := (vchans ?st1 ?a)\<lparr>chan_buf := []\<rparr>),
                    tchans := (tchans ?st1)(?t :=
                       (tchans ?st1 ?t)
                         \<lparr>chan_buf := chan_buf (tchans ?st1 ?t)
                                        @ replicate (length (filter (expired now ?st1) cs)) 1\<rparr>),
                    closedLog := closedLog ?st1 @ valuesOf ?st1 (filter (expired now ?st1) cs)\<rparr>,
                 sv @ filter (\<lambda>c. \<not> expired now ?st1 c) cs)"
      using idle True Cons.prems(3)
      by (intro Cons.IH)
         (simp_all add: allIdle_cells [OF cells1] expired_cells [OF cells1], simp_all add: set_vchan_def)
    show ?thesis
      apply (subst getValidValuesAndCleanupOthers.simps)
      apply (simp only: rc option.case prod.case cc exec.case if_False ih)
      apply (simp add: expired_cells [OF cells1] valuesOf_cells [OF cells1] True
          valuesOf_Cons [OF cv(1)])
      apply (simp add: set_vchan_def replicate_append_same)
      done
  next
    case False
    have cc: "cleanupCell now ce c ?st0 = Done (?st0, True)"
      using cv False
      by (subst cleanupCell_eq [where cv = cv]) (simp_all add: ex0, simp_all add: set_vchan_def)
    have ih: "getValidValuesAndCleanupOthers now ce (sv @ [c]) ?st0 =
           Done (?st0\<lparr>vchans := (vchans ?st0)(?a := (vchans ?st0 ?a)\<lparr>chan_buf := []\<rparr>),
                    tchans := (tchans ?st0)(?t :=
                       (tchans ?st0 ?t)
                         \<lparr>chan_buf := chan_buf (tchans ?st0 ?t)
                                        @ replicate (length (filter (expired now ?st0) cs)) 1\<rparr>),
                    closedLog := closedLog ?st0 @ valuesOf ?st0 (filter (expired now ?st0) cs)\<rparr>,
                 (sv @ [c]) @ filter (\<lambda>c. \<not> expired now ?st0 c) cs)"
      using idle False Cons.prems(3)
      by (intro Cons.IH)
         (simp_all add: allIdle_cells [OF cells0] expired_cells [OF cells0], simp_all add: set_vchan_def)
    show ?thesis
      apply (subst getValidValuesAndCleanupOthers.simps)
      apply (simp only: rc option.case prod.case cc exec.case if_True ih)
      apply (simp add: expired_cells [OF cells0] valuesOf_cells [OF cells0] False)
      apply (simp add: set_vchan_def)
      done
  qed
qed

lemma requeue_eq:
  "int (length (chan_buf ch)) + int (length cs) \<le> chan_cap ch \<Longrightarrow>
   requeue cs ch = Some (ch\<lparr>chan_buf := chan_buf ch @ cs\<rparr>)"
  by (induction cs arbitrary: ch) (simp_all add: chan_send_def)

lemma cleanupValues_eq:
  assumes "allIdle st (chan_buf (vchans st (available ce)))"
    and "int (length (chan_buf (vchans st (available ce)))) \<le> chan_cap (vchans st (available ce))"
    and "int (length (chan_buf (tchans st (capacity ce))))
           + int (length (filter (expired now st) (chan_buf (vchans st (available ce)))))
           \<le> chan_cap (tchans st (capacity ce))"
  shows "cleanupValues now ce st =
           Done (st\<lparr>vchans := (vchans st)(available ce := (vchans st (available ce))
                       \<lparr>chan_buf := filter (\<lambda>c. \<not> expired now st c) (chan_buf (vchans st (available ce)))\<rparr>),
                    tchans := (tchans st)(capacity ce := (tchans st (capacity ce))
                       \<lparr>chan_buf := replicate
                          (length (chan_buf (tchans st (capacity ce)))
                           + length (filter (expired now st) (chan_buf (vchans st (available ce))))) 1\<rparr>),
                    closedLog := closedLog st
                       @ valuesOf st (filter (expired now st) (chan_buf (vchans st (available ce))))\<rparr>,
                 int (length (chan_buf (tchans st (capacity ce)))
                      + length (filter (expired now st) (chan_buf (vchans st (available ce)))))
                   = maxCapacity ce)"
proof -
  let ?bs = "chan_buf (vchans st (available ce))"
  let ?ts = "chan_buf (tchans st (capacity ce))"
  let ?st1 = "st\<lparr>vchans := (vchans st)(available ce := (vchans st (available ce))\<lparr>chan_buf := []\<rparr>),
                 tchans := (tchans st)(capacity ce := (tchans st (capacity ce))
                    \<lparr>chan_buf := ?ts @ replicate (length (filter (expired now st) ?bs)) 1\<rparr>),
                 closedLog := closedLog st @ valuesOf st (filter (expired now st) ?bs)\<rparr>"
  let ?keep = "filter (\<lambda>c. \<not> expired now st c) ?bs"
  have l: "getValidValuesAndCleanupOthers now ce [] st = Done (?st1, ?keep)"
    using getValidValuesAndCleanupOthers_eq [OF refl assms(1) assms(3), of "[]"] by simp
  have "int (length ?keep) \<le> int (length ?bs)"
    by simp
  with assms(2) have "int (length ?keep) \<le> chan_cap (vchans st (available ce))"
    by linarith
  then have q: "requeue ?keep (vchans ?st1 (available ce)) =
             Some ((vchans st (available ce))\<lparr>chan_buf := ?keep\<rparr>)"
    by (subst requeue_eq) simp_all
  let ?st2 = "set_vchan (available ce) ((vchans st (available ce))\<lparr>chan_buf := ?keep\<rparr>) ?st1"
  have g: "getAvailableCapacity ce ?st2 =
             Done (set_tchan (capacity ce)
                     ((tchans ?st2 (capacity ce))
                        \<lparr>chan_buf := replicate (length (chan_buf (tchans ?st2 (capacity ce)))) 1\<rparr>) ?st2,
                   int (length (chan_buf (tchans ?st2 (capacity ce)))))"
    using assms(3)
    by (simp add: getAvailableCapacity_def drain_capacity_eq fill_loop_eq set_vchan_def
        nat_int_add)
  show ?thesis
    unfolding cleanupValues_def l exec.case prod.case q option.case g
    by (simp add: set_vchan_def set_tchan_def)
qed

subsection \<open>cleanupValues\<close>

text \<open>
  What \<open>cleanupValues\<close> does in a pool whose idle cells and tickets fit the capacity
  of the capacity channel, as they do where the capacity conservation identity
  holds: it drains the available queue without blocking; every drained cell that was
  last used thirty minutes ago or more has its value closed, in the order drained,
  and adds one ticket to the capacity channel; every other cell is kept, and the kept
  cells are put back in the queue in the order they were drained. The result is true
  exactly when the capacity channel then holds \<open>maxCapacity\<close> tickets. The cells in
  the queue are taken to be idle (their locks are free).
\<close>

lemma cleanupValues_sweeps_idle_cells:
  assumes "allIdle st (chan_buf (vchans st (available ce)))"
    and "int (length (chan_buf (vchans st (available ce)))) \<le> chan_cap (vchans st (available ce))"
    and "int (length (chan_buf (tchans st (capacity ce))))
           + int (length (filter (expired now st) (chan_buf (vchans st (available ce)))))
           \<le> chan_cap (tchans st (capacity ce))"
  shows "\<exists>st' noneLeft.
           cleanupValues now ce st = Done (st', noneLeft)
         \<and> chan_buf (vchans st' (available ce)) =
             filter (\<lambda>c. \<not> expired now st c) (chan_buf (vchans st (available ce)))
         \<and> closedLog st' =
             closedLog st @ valuesOf st (filter (expired now st) (chan_buf (vchans st (available ce))))
         \<and> chan_buf (tchans st' (capacity ce)) =
             replicate (length (chan_buf (tchans st (capacity ce)))
                        + length (filter (expired now st) (chan_buf (vchans st (available ce))))) 1
         \<and> cells st' = cells st
         \<and> entries st' = entries st
         \<and> noneLeft = (int (length (chan_buf (tchans st' (capacity ce)))) = maxCapacity ce)"
  unfolding cleanupValues_eq [OF assms] by simp

lemma cleanupValues_sweeps_idle_cells_example:
  "\<exists>st'. cleanupValues (30 * Minute) entry3 pool_two_idle = Done (st', False)
       \<and> chan_buf (vchans st' 0) = [1]
       \<and> closedLog st' = [0]
       \<and> chan_buf (tchans st' 0) = [1, 1]"
proof -
  have a: "chan_buf (vchans pool_two_idle (available entry3)) = [0, 1]"
    by (simp add: pool_two_idle_def entry3_def)
  have t: "tchans pool_two_idle (capacity entry3) = \<lparr>chan_cap = 3, chan_buf = [1]\<rparr>"
    by (simp add: pool_two_idle_def entry3_def)
  have x: "expired (30 * Minute) pool_two_idle 0" "\<not> expired (30 * Minute) pool_two_idle 1"
    "\<not> expired (30 * Minute) pool_two_idle (Suc 0)"
    by (simp_all add: expired_def pool_two_idle_def Minute_def)
  have v: "valuesOf pool_two_idle [0] = [0]"
    by (simp add: valuesOf_def pool_two_idle_def map_filter_simps)
  have h1: "allIdle pool_two_idle (chan_buf (vchans pool_two_idle (available entry3)))"
    unfolding a by (simp add: allIdle_def pool_two_idle_def)
  have h2: "int (length (chan_buf (vchans pool_two_idle (available entry3))))
              \<le> chan_cap (vchans pool_two_idle (available entry3))"
    by (simp add: pool_two_idle_def entry3_def)
  have h3: "int (length (chan_buf (tchans pool_two_idle (capacity entry3))))
           + int (length (filter (expired (30 * Minute) pool_two_idle)
                            (chan_buf (vchans pool_two_idle (available entry3)))))
           \<le> chan_cap (tchans pool_two_idle (capacity entry3))"
    unfolding a t by (simp add: x)
  from cleanupValues_sweeps_idle_cells [OF h1 h2 h3]
  obtain st' noneLeft where
    "cleanupValues (30 * Minute) entry3 pool_two_idle = Done (st', noneLeft)"
    "chan_buf (vchans st' (available entry3)) = [1]"
    "closedLog st' = closedLog pool_two_idle @ [0]"
    "chan_buf (tchans st' (capacity entry3)) = [1, 1]"
    "noneLeft = (int (length (chan_buf (tchans st' (capacity entry3)))) = maxCapacity entry3)"
    unfolding a t by (auto simp: x v numeral_2_eq_2)
  then show ?thesis
    by (intro exI [of _ st']) (simp add: entry3_def pool_two_idle_def)
qed

subsection \<open>What a sweep leaves alone, and what it removes\<close>

lemma getValue_no_idle_cell:
  assumes "chan_buf (vchans st (available ce)) = []"
    and "chan_buf (tchans st (capacity ce)) = 1 # ts"
    and "int (length ts) < chan_cap (tchans st (capacity ce))"
  shows "getValue_ready ctx ce st = (if ctx \<noteq> None then [CtxDone, FromCapacity] else [FromCapacity])"
    and "outcome (getValue rnd ctx now ce st) =
           (if select_pick rnd (getValue_ready ctx ce st) = Some CtxDone
            then Done (None, NilReturnCapacityToCache, ctx)
            else case fst (createValue ce (world st)) of
                   Inl e \<Rightarrow> Done (None, NilReturnCapacityToCache, Some e)
                 | Inr v \<Rightarrow> Done (Some v, ReturnToCache (ncells st), None))"
proof -
  show rd: "getValue_ready ctx ce st = (if ctx \<noteq> None then [CtxDone, FromCapacity] else [FromCapacity])"
    using assms by (simp add: getValue_ready_def)
  have p: "select_pick rnd (getValue_ready ctx ce st) = Some CtxDone
         \<or> select_pick rnd (getValue_ready ctx ce st) = Some FromCapacity"
    unfolding rd select_pick_def
    by (cases "rnd mod 2 = 0") (auto simp: nth_Cons' )
  have d: "select_pick rnd (getValue_ready ctx ce st) = Some CtxDone \<Longrightarrow> ctx \<noteq> None"
    using select_pick_mem [of rnd "getValue_ready ctx ce st" CtxDone] by simp
  show "outcome (getValue rnd ctx now ce st) =
           (if select_pick rnd (getValue_ready ctx ce st) = Some CtxDone
            then Done (None, NilReturnCapacityToCache, ctx)
            else case fst (createValue ce (world st)) of
                   Inl e \<Rightarrow> Done (None, NilReturnCapacityToCache, Some e)
                 | Inr v \<Rightarrow> Done (Some v, ReturnToCache (ncells st), None))"
  proof (cases "select_pick rnd (getValue_ready ctx ce st) = Some CtxDone")
    case True
    with d obtain e where "ctx = Some e" by auto
    with True show ?thesis
      by (simp add: getValue_def outcome_def)
  next
    case False
    with p have q: "select_pick rnd (getValue_ready ctx ce st) = Some FromCapacity"
      by blast
    show ?thesis
    proof (cases "createValue ce (world st)")
      case (Pair r w)
      then show ?thesis using assms q
        by (cases r)
           (simp_all add: getValue_def chan_recv_def createCacheValue_def set_tchan_def
              chan_send_def outcome_def handOut_def acquireFromCache_def set_cell_def)
    qed
  qed
qed

lemma cleanupCell_frame:
  "cleanupCell now ce c st = Done (st', keep) \<Longrightarrow>
     entries st' = entries st \<and> world st' = world st \<and> cells st' = cells st
     \<and> ncells st' = ncells st \<and> nvchans st' = nvchans st \<and> ntchans st' = ntchans st
     \<and> maxChan st' = maxChan st \<and> vchans st' = vchans st
     \<and> tchans st' = (tchans st)(capacity ce := tchans st' (capacity ce))"
  by (auto simp: cleanupCell_def Close_def set_tchan_def Let_def
      split: option.splits if_splits)

lemma getValidValuesAndCleanupOthers_frame:
  "getValidValuesAndCleanupOthers now ce sv st = Done (st', sv') \<Longrightarrow>
     entries st' = entries st \<and> world st' = world st \<and> cells st' = cells st
     \<and> ncells st' = ncells st \<and> nvchans st' = nvchans st \<and> ntchans st' = ntchans st
     \<and> maxChan st' = maxChan st
     \<and> vchans st' = (vchans st)(available ce := vchans st' (available ce))
     \<and> tchans st' = (tchans st)(capacity ce := tchans st' (capacity ce))"
proof (induction now ce sv st rule: getValidValuesAndCleanupOthers.induct)
  case (1 now ce sv st)
  show ?case
  proof (cases "chan_recv (vchans st (available ce))")
    case None
    with "1.prems" show ?thesis
      by (subst (asm) getValidValuesAndCleanupOthers.simps) simp
  next
    case (Some x)
    obtain c ch where x: "x = (c, ch)"
      by (cases x)
    from "1.prems" Some x obtain st1 keep where
      cc: "cleanupCell now ce c (set_vchan (available ce) ch st) = Done (st1, keep)"
      and rec: "getValidValuesAndCleanupOthers now ce (if keep then sv @ [c] else sv) st1
                  = Done (st', sv')"
      by (subst (asm) getValidValuesAndCleanupOthers.simps) (auto split: exec.splits)
    note ih = "1.IH" [OF Some x [symmetric] cc refl rec]
    note fr = cleanupCell_frame [OF cc]
    from ih fr have a: "entries st' = entries st \<and> world st' = world st \<and> cells st' = cells st
     \<and> ncells st' = ncells st \<and> nvchans st' = nvchans st \<and> ntchans st' = ntchans st
     \<and> maxChan st' = maxChan st"
      by (simp add: set_vchan_def)
    from ih fr have v: "vchans st' r = vchans st r" if "r \<noteq> available ce" for r
      using that by (simp add: set_vchan_def; metis fun_upd_other)
    from ih fr have t: "tchans st' r = tchans st r" if "r \<noteq> capacity ce" for r
      using that by (simp add: set_vchan_def; metis fun_upd_other)
    from a v t show ?thesis
      by (auto simp: fun_eq_iff)
  qed
qed

lemma getAvailableCapacity_frame:
  "getAvailableCapacity ce st = Done (st', n) \<Longrightarrow>
     entries st' = entries st \<and> world st' = world st \<and> cells st' = cells st
     \<and> ncells st' = ncells st \<and> nvchans st' = nvchans st \<and> ntchans st' = ntchans st
     \<and> maxChan st' = maxChan st \<and> vchans st' = vchans st
     \<and> tchans st' = (tchans st)(capacity ce := tchans st' (capacity ce))"
  by (auto simp: getAvailableCapacity_def set_tchan_def split: prod.splits option.splits)

lemma cleanupValues_frame:
  assumes "cleanupValues now ce st = Done (st', noneLeft)"
  shows "entries st' = entries st \<and> world st' = world st \<and> cells st' = cells st
     \<and> ncells st' = ncells st \<and> nvchans st' = nvchans st \<and> ntchans st' = ntchans st
     \<and> maxChan st' = maxChan st
     \<and> (\<forall>r. r \<noteq> available ce \<longrightarrow> vchans st' r = vchans st r)
     \<and> (\<forall>r. r \<noteq> capacity ce \<longrightarrow> tchans st' r = tchans st r)"
proof -
  from assms obtain st1 sv ch n where
    a: "getValidValuesAndCleanupOthers now ce [] st = Done (st1, sv)"
    and b: "getAvailableCapacity ce (set_vchan (available ce) ch st1) = Done (st', n)"
    by (auto simp: cleanupValues_def split: exec.splits option.splits)
  note fa = getValidValuesAndCleanupOthers_frame [OF a]
  note fb = getAvailableCapacity_frame [OF b]
  have v: "vchans st' r = vchans st r" if "r \<noteq> available ce" for r
    using fa fb that by (simp add: set_vchan_def; metis fun_upd_other)
  have t: "tchans st' r = tchans st r" if "r \<noteq> capacity ce" for r
    using fa fb that by (simp add: set_vchan_def; metis fun_upd_other)
  from fa fb v t show ?thesis
    by (simp add: set_vchan_def)
qed


lemma cleanupEntries_frame:
  "cleanupEntries now ks st = Done st' \<Longrightarrow>
     world st' = world st \<and> cells st' = cells st \<and> ncells st' = ncells st
     \<and> nvchans st' = nvchans st \<and> ntchans st' = ntchans st \<and> maxChan st' = maxChan st
     \<and> (\<forall>k. entries st' k = None \<or> entries st' k = entries st k)"
proof (induction ks arbitrary: st)
  case Nil
  then show ?case by simp
next
  case (Cons k ks)
  show ?case
  proof (cases "entries st k")
    case None
    with Cons.prems have "cleanupEntries now ks st = Done st'"
      by simp
    then show ?thesis
      by (rule Cons.IH)
  next
    case (Some entry)
    with Cons.prems obtain st1 noneLeft where
      cv: "cleanupValues now entry st = Done (st1, noneLeft)"
      and rec: "cleanupEntries now ks
                  (if noneLeft then st1\<lparr>entries := (entries st1)(key entry := None)\<rparr> else st1) = Done st'"
      by (auto split: exec.splits)
    note f = cleanupValues_frame [OF cv]
    note ih = Cons.IH [OF rec]
    from f ih show ?thesis
      by (auto split: if_splits)
  qed
qed

lemma cleanupValues_empty_entry:
  assumes "chan_buf (vchans st (available ce)) = []"
    and "0 \<le> chan_cap (vchans st (available ce))"
    and "chan_buf (tchans st (capacity ce)) = replicate n 1"
    and "int n \<le> chan_cap (tchans st (capacity ce))"
  shows "cleanupValues now ce st = Done (st, int n = maxCapacity ce)"
proof -
  have h1: "allIdle st (chan_buf (vchans st (available ce)))"
    using assms(1) by (simp add: allIdle_def)
  have h2: "int (length (chan_buf (vchans st (available ce)))) \<le> chan_cap (vchans st (available ce))"
    using assms(1,2) by simp
  have h3: "int (length (chan_buf (tchans st (capacity ce))))
           + int (length (filter (expired now st) (chan_buf (vchans st (available ce)))))
           \<le> chan_cap (tchans st (capacity ce))"
    using assms(1,3,4) by simp
  have v: "(vchans st)(available ce := (vchans st (available ce))\<lparr>chan_buf := []\<rparr>) = vchans st"
    using assms(1) by (simp add: fun_eq_iff)
  have t: "(tchans st)(capacity ce := (tchans st (capacity ce))\<lparr>chan_buf := replicate n 1\<rparr>) = tchans st"
    using assms(3) by (simp add: fun_eq_iff)
  show ?thesis
    unfolding cleanupValues_eq [OF h1 h2 h3]
    by (simp add: assms(1,3) v t)
qed

lemma cleanupEntries_removes:
  assumes "cleanupEntries now ks s = Done s'"
    and "k \<in> set ks"
    and "\<forall>k' e. entries s k' = Some e \<and> k' \<noteq> k \<longrightarrow> available e \<noteq> a \<and> capacity e \<noteq> t"
    and "entries s k = None
         \<or> (entries s k = Some entry \<and> available entry = a \<and> capacity entry = t \<and> key entry = k
            \<and> chan_buf (vchans s a) = [] \<and> 0 \<le> chan_cap (vchans s a)
            \<and> chan_buf (tchans s t) = replicate n 1 \<and> int n = maxCapacity entry
            \<and> int n \<le> chan_cap (tchans s t))"
  shows "entries s' k = None"
  using assms
proof (induction ks arbitrary: s)
  case Nil
  then show ?case by simp
next
  case (Cons k' ks)
  show ?case
  proof (cases "entries s k'")
    case None
    with Cons.prems(1) have rec: "cleanupEntries now ks s = Done s'"
      by simp
    show ?thesis
    proof (cases "k' = k")
      case True
      with None cleanupEntries_frame [OF rec] show ?thesis
        by (metis)
    next
      case False
      with Cons.prems(2) have "k \<in> set ks" by simp
      from Cons.IH [OF rec this Cons.prems(3) Cons.prems(4)] show ?thesis .
    qed
  next
    case (Some e)
    with Cons.prems(1) obtain s1 noneLeft where
      cv: "cleanupValues now e s = Done (s1, noneLeft)"
      and rec: "cleanupEntries now ks
                  (if noneLeft then s1\<lparr>entries := (entries s1)(key e := None)\<rparr> else s1) = Done s'"
      by (auto split: exec.splits)
    let ?s2 = "if noneLeft then s1\<lparr>entries := (entries s1)(key e := None)\<rparr> else s1"
    note f = cleanupValues_frame [OF cv]
    show ?thesis
    proof (cases "k' = k")
      case True
      with Some Cons.prems(4) have en: "e = entry" and av: "available entry = a" "capacity entry = t"
        "key entry = k" "chan_buf (vchans s a) = []" "0 \<le> chan_cap (vchans s a)"
        "chan_buf (tchans s t) = replicate n 1" "int n = maxCapacity entry"
        "int n \<le> chan_cap (tchans s t)"
        by auto
      have h: "chan_buf (vchans s (available entry)) = []"
        "0 \<le> chan_cap (vchans s (available entry))"
        "chan_buf (tchans s (capacity entry)) = replicate n 1"
        "int n \<le> chan_cap (tchans s (capacity entry))"
        using av by simp_all
      have "cleanupValues now entry s = Done (s, int n = maxCapacity entry)"
        by (rule cleanupValues_empty_entry [OF h])
      with cv en av have "noneLeft" "s1 = s"
        by simp_all
      then have "entries ?s2 k = None"
        using en av by simp
      with cleanupEntries_frame [OF rec] show ?thesis
        by metis
    next
      case False
      with Cons.prems(2) have m: "k \<in> set ks" by simp
      from Some False Cons.prems(3) have ne: "available e \<noteq> a" "capacity e \<noteq> t"
        by blast+
      have w: "\<forall>k' e. entries ?s2 k' = Some e \<and> k' \<noteq> k \<longrightarrow> available e \<noteq> a \<and> capacity e \<noteq> t"
        using Cons.prems(3) f by (auto split: if_splits)
      have i: "entries ?s2 k = None
         \<or> (entries ?s2 k = Some entry \<and> available entry = a \<and> capacity entry = t \<and> key entry = k
            \<and> chan_buf (vchans ?s2 a) = [] \<and> 0 \<le> chan_cap (vchans ?s2 a)
            \<and> chan_buf (tchans ?s2 t) = replicate n 1 \<and> int n = maxCapacity entry
            \<and> int n \<le> chan_cap (tchans ?s2 t))"
        using Cons.prems(4) f ne by (auto split: if_splits)
      from Cons.IH [OF rec m w i] show ?thesis .
    qed
  qed
qed


lemma outcome_AddAndAcquire_new_key:
  assumes "entries st k = None" and "1 \<le> cap" and "cap \<le> maxChan st"
  shows "outcome (AddAndAcquire rnd ctx now k f cap st) =
           (case fst (f (world st)) of
              Inl e \<Rightarrow> Done (None, NilReturnCapacityToCache, False, Some e)
            | Inr v \<Rightarrow> Done (Some v, ReturnToCache (ncells st), False, None))"
  unfolding AddAndAcquire_new_key [OF assms] outcome_def
  by (simp split: prod.splits sum.splits)

subsection \<open>AddAndAcquire on a key that has no entry\<close>

text \<open>
  C3, as amended. For a call \<open>AddAndAcquire(ctx, key, factory, cap)\<close> with no entry
  for the key and a cap of at least one that \<open>make\<close> accepts: a new entry is installed
  in the map, with an available queue of capacity \<open>cap\<close> and a capacity channel of
  capacity \<open>cap\<close>; the factory is called once. When it succeeds, the new cell is
  locked and returned with \<open>false\<close> as the third result, and \<open>cap - 1\<close> tickets are
  left. When it fails, its error is returned, no cell exists, the channel holds
  \<open>cap\<close> tickets again and the entry stays installed with the factory of this call,
  until a sweep removes it. A later \<open>AddAndAcquire\<close> for the key that finds the entry
  does not use the factory it is given: its \<open>select\<close> can take a capacity ticket, and
  the cancellation of the context when that is done; with the cancellation it
  returns the error of the context, and with the ticket it calls the installed
  factory again and succeeds exactly when that call succeeds. The call launches a
  sweep when the last one was launched five minutes before or more. A sweep that runs
  before the later call and visits the key finds the entry with no cell and all its
  tickets and removes it (it returns, when it has this key only to visit); the later
  call then installs a new entry and its outcome is that of the factory it is given.
  For the sweep the entries that the map held before are taken to own channels that
  have been allocated.
\<close>

theorem AddAndAcquire_new_key_installs:
  assumes "entries st k = None" and "1 \<le> cap" and "cap \<le> maxChan st" and "f (world st) = (r, w)"
  shows "let entry = \<lparr>available = nvchans st, capacity = ntchans st, maxCapacity = cap,
                       createValue = f, key = k\<rparr>
         in \<exists>st'.
              (case r of
                 Inr v \<Rightarrow>
                   AddAndAcquire rnd ctx now k f cap st =
                     Done (st', Some v, ReturnToCache (ncells st), False, None)
                   \<and> chan_buf (tchans st' (capacity entry)) = replicate (nat cap - 1) 1
                   \<and> cells st' = (cells st)(ncells st :=
                        Some \<lparr>lock = True, returnChan = available entry, cv_value = v, lastUsed = now\<rparr>)
               | Inl err \<Rightarrow>
                   AddAndAcquire rnd ctx now k f cap st =
                     Done (st', None, NilReturnCapacityToCache, False, Some err)
                   \<and> chan_buf (tchans st' (capacity entry)) = replicate (nat cap) 1
                   \<and> cells st' = cells st
                   \<and> (\<forall>rnd' ctx' now' f' n'.
                        getValue_ready ctx' entry st' =
                          (if ctx' \<noteq> None then [CtxDone, FromCapacity] else [FromCapacity])
                        \<and> outcome (AddAndAcquire rnd' ctx' now' k f' n' st') =
                          (if select_pick rnd' (getValue_ready ctx' entry st') = Some CtxDone
                           then Done (None, NilReturnCapacityToCache, True, ctx')
                           else case fst (f w) of
                                  Inl e \<Rightarrow> Done (None, NilReturnCapacityToCache, True, Some e)
                                | Inr v \<Rightarrow> Done (Some v, ReturnToCache (ncells st), True, None)))
                   \<and> (\<forall>now'. 0 < sweeps st' \<longrightarrow>
                        runSweep now' [k] st' =
                          Done (st'\<lparr>entries := entries st, sweeps := sweeps st' - 1\<rparr>))
                   \<and> (\<forall>now' ks st''.
                        0 < sweeps st' \<and> k \<in> set ks
                        \<and> (\<forall>k' e. entries st k' = Some e \<longrightarrow>
                                     available e < nvchans st \<and> capacity e < ntchans st)
                        \<and> runSweep now' ks st' = Done st''
                        \<longrightarrow> entries st'' k = None
                            \<and> (\<forall>rnd' ctx' now'' f' n'.
                                  1 \<le> n' \<and> n' \<le> maxChan st \<longrightarrow>
                                  outcome (AddAndAcquire rnd' ctx' now'' k f' n' st'') =
                                    (case fst (f' w) of
                                       Inl e \<Rightarrow> Done (None, NilReturnCapacityToCache, False, Some e)
                                     | Inr v \<Rightarrow>
                                         Done (Some v, ReturnToCache (ncells st), False, None)))))
              \<and> entries st' = (entries st)(k := Some entry)
              \<and> vchans st' (available entry) = \<lparr>chan_cap = cap, chan_buf = []\<rparr>
              \<and> chan_cap (tchans st' (capacity entry)) = cap
              \<and> world st' = w
              \<and> sweeps st' = (if 5 * Minute \<le> now - lastChecked st then Suc (sweeps st) else sweeps st)"
proof (cases r)
  case (Inr v)
  with assms show ?thesis
    by (simp add: AddAndAcquire_new_key installed_def Let_def sweepCheck_def)
next
  case (Inl err)
  let ?entry = "\<lparr>available = nvchans st, capacity = ntchans st, maxCapacity = cap,
                  createValue = f, key = k\<rparr>"
  let ?st = "(installed now k f cap (nat cap) st)\<lparr>world := w\<rparr>"
  have a: "AddAndAcquire rnd ctx now k f cap st =
             Done (?st, None, NilReturnCapacityToCache, False, Some err)"
    using assms Inl by (simp add: AddAndAcquire_new_key)
  have e: "entries ?st k = Some ?entry"
    by (simp add: installed_def)
  have av: "vchans ?st (nvchans st) = \<lparr>chan_cap = cap, chan_buf = []\<rparr>"
    and tk: "tchans ?st (ntchans st) = \<lparr>chan_cap = cap, chan_buf = replicate (nat cap) 1\<rparr>"
    by (simp_all add: installed_def)
  have again: "getValue_ready ctx' ?entry ?st =
                 (if ctx' \<noteq> None then [CtxDone, FromCapacity] else [FromCapacity])
        \<and> outcome (AddAndAcquire rnd' ctx' now' k f' n' ?st) =
          (if select_pick rnd' (getValue_ready ctx' ?entry ?st) = Some CtxDone
           then Done (None, NilReturnCapacityToCache, True, ctx')
           else case fst (f w) of
                  Inl e \<Rightarrow> Done (None, NilReturnCapacityToCache, True, Some e)
                | Inr v \<Rightarrow> Done (Some v, ReturnToCache (ncells st), True, None))"
    for rnd' ctx' now' f' n'
  proof -
    let ?s = "sweepCheck now' ?st"
    have h1: "chan_buf (vchans ?s (available ?entry)) = []"
      by (simp add: installed_def)
    have h2: "chan_buf (tchans ?s (capacity ?entry)) = 1 # replicate (nat cap - 1) 1"
      using assms(2) by (simp add: installed_def replicate_nat_pos)
    have h3: "int (length (replicate (nat cap - 1) (1::int))) < chan_cap (tchans ?s (capacity ?entry))"
      using assms(2) by (simp add: installed_def)
    note g = getValue_no_idle_cell [OF h1 h2 h3]
    have rd: "getValue_ready ctx' ?entry ?st =
                 (if ctx' \<noteq> None then [CtxDone, FromCapacity] else [FromCapacity])"
      using g(1) [of ctx'] by simp
    have w: "world ?s = w" "ncells ?s = ncells st"
      by (simp_all add: installed_def)
    have "outcome (getValue rnd' ctx' now' ?entry ?s) =
            (if select_pick rnd' (getValue_ready ctx' ?entry ?st) = Some CtxDone
             then Done (None, NilReturnCapacityToCache, ctx')
             else case fst (f w) of
                    Inl e \<Rightarrow> Done (None, NilReturnCapacityToCache, Some e)
                  | Inr v \<Rightarrow> Done (Some v, ReturnToCache (ncells st), None))"
      unfolding g(2) w by simp
    then have "outcome (AddAndAcquire rnd' ctx' now' k f' n' ?st) =
          (if select_pick rnd' (getValue_ready ctx' ?entry ?st) = Some CtxDone
           then Done (None, NilReturnCapacityToCache, True, ctx')
           else case fst (f w) of
                  Inl e \<Rightarrow> Done (None, NilReturnCapacityToCache, True, Some e)
                | Inr v \<Rightarrow> Done (Some v, ReturnToCache (ncells st), True, None))"
      by (simp add: outcome_AddAndAcquire_found [OF e] split: sum.splits)
    with rd show ?thesis
      by (rule conjI)
  qed
  have empty: "cleanupValues now' ?entry (?st\<lparr>sweeps := n\<rparr>) =
                 Done (?st\<lparr>sweeps := n\<rparr>, True)" for now' n
  proof -
    have "cleanupValues now' ?entry (?st\<lparr>sweeps := n\<rparr>) =
            Done (?st\<lparr>sweeps := n\<rparr>, int (nat cap) = maxCapacity ?entry)"
      using assms(2)
      by (intro cleanupValues_empty_entry) (simp_all add: installed_def)
    then show ?thesis
      using assms(2) by simp
  qed
  have one: "runSweep now' [k] ?st = Done (?st\<lparr>entries := entries st, sweeps := sweeps ?st - 1\<rparr>)"
    if "0 < sweeps ?st" for now'
  proof -
    from that obtain n where n: "sweeps ?st = Suc n"
      by (cases "sweeps ?st") auto
    have e': "entries (?st\<lparr>sweeps := n\<rparr>) k = Some ?entry"
      by (simp add: installed_def)
    have step: "runSweep now' [k] ?st =
                  Done ((?st\<lparr>sweeps := n\<rparr>)
                          \<lparr>entries := (entries (?st\<lparr>sweeps := n\<rparr>))(key ?entry := None)\<rparr>)"
      unfolding runSweep_def n nat.case cleanupEntries.simps e' option.case empty exec.case
        prod.case if_True
      by (rule refl)
    have "(entries st)(k := None) = entries st"
      using assms(1) by (simp add: fun_eq_iff)
    then show ?thesis
      unfolding step n by (simp add: installed_def)
  qed
  have swept: "entries st'' k = None
        \<and> (\<forall>rnd' ctx' now'' f' n'.
              1 \<le> n' \<and> n' \<le> maxChan st \<longrightarrow>
              outcome (AddAndAcquire rnd' ctx' now'' k f' n' st'') =
                (case fst (f' w) of
                   Inl e \<Rightarrow> Done (None, NilReturnCapacityToCache, False, Some e)
                 | Inr v \<Rightarrow> Done (Some v, ReturnToCache (ncells st), False, None)))"
    if h: "0 < sweeps ?st \<and> k \<in> set ks
        \<and> (\<forall>k' e. entries st k' = Some e \<longrightarrow> available e < nvchans st \<and> capacity e < ntchans st)
        \<and> runSweep now' ks ?st = Done st''" for now' ks st''
  proof -
    from h obtain n where n: "sweeps ?st = Suc n"
      by (cases "sweeps ?st") auto
    let ?s = "?st\<lparr>sweeps := n\<rparr>"
    from h n have run: "cleanupEntries now' ks ?s = Done st''"
      by (simp add: runSweep_def)
    from h have mem: "k \<in> set ks"
      by blast
    from h have al: "\<forall>k' e. entries st k' = Some e \<longrightarrow>
                        available e < nvchans st \<and> capacity e < ntchans st"
      by blast
    have wf: "\<forall>k' e. entries ?s k' = Some e \<and> k' \<noteq> k \<longrightarrow>
                        available e \<noteq> nvchans st \<and> capacity e \<noteq> ntchans st"
    proof (intro allI impI)
      fix k' e
      assume "entries ?s k' = Some e \<and> k' \<noteq> k"
      then have "entries st k' = Some e"
        by (auto simp: installed_def)
      with al have "available e < nvchans st \<and> capacity e < ntchans st"
        by blast
      then show "available e \<noteq> nvchans st \<and> capacity e \<noteq> ntchans st"
        by simp
    qed
    have inv: "entries ?s k = None
         \<or> (entries ?s k = Some ?entry \<and> available ?entry = nvchans st
            \<and> capacity ?entry = ntchans st \<and> key ?entry = k
            \<and> chan_buf (vchans ?s (nvchans st)) = [] \<and> 0 \<le> chan_cap (vchans ?s (nvchans st))
            \<and> chan_buf (tchans ?s (ntchans st)) = replicate (nat cap) 1
            \<and> int (nat cap) = maxCapacity ?entry
            \<and> int (nat cap) \<le> chan_cap (tchans ?s (ntchans st)))"
      using assms(2) by (simp add: installed_def)
    have none: "entries st'' k = None"
      by (rule cleanupEntries_removes [OF run mem wf inv])
    note fr = cleanupEntries_frame [OF run]
    have w: "world st'' = w" "ncells st'' = ncells st" "maxChan st'' = maxChan st"
      using fr by (simp_all add: installed_def)
    have "outcome (AddAndAcquire rnd' ctx' now'' k f' n' st'') =
                (case fst (f' w) of
                   Inl e \<Rightarrow> Done (None, NilReturnCapacityToCache, False, Some e)
                 | Inr v \<Rightarrow> Done (Some v, ReturnToCache (ncells st), False, None))"
      if "1 \<le> n' \<and> n' \<le> maxChan st" for rnd' ctx' now'' f' n'
      using that outcome_AddAndAcquire_new_key [OF none, of n' rnd' ctx' now'' f'] w
      by (simp cong: sum.case_cong)
    with none show ?thesis
      by blast
  qed
  have rest: "entries ?st = (entries st)(k := Some ?entry)
              \<and> vchans ?st (available ?entry) = \<lparr>chan_cap = cap, chan_buf = []\<rparr>
              \<and> chan_cap (tchans ?st (capacity ?entry)) = cap
              \<and> world ?st = w
              \<and> sweeps ?st = (if 5 * Minute \<le> now - lastChecked st then Suc (sweeps st) else sweeps st)"
    by (simp add: installed_def sweepCheck_def)
  have t3: "chan_buf (tchans ?st (capacity ?entry)) = replicate (nat cap) 1"
    by (simp add: installed_def)
  have c3: "cells ?st = cells st"
    by (simp add: installed_def)
  have all1: "\<forall>rnd' ctx' now' f' n'.
                getValue_ready ctx' ?entry ?st =
                  (if ctx' \<noteq> None then [CtxDone, FromCapacity] else [FromCapacity])
                \<and> outcome (AddAndAcquire rnd' ctx' now' k f' n' ?st) =
                  (if select_pick rnd' (getValue_ready ctx' ?entry ?st) = Some CtxDone
                   then Done (None, NilReturnCapacityToCache, True, ctx')
                   else case fst (f w) of
                          Inl e \<Rightarrow> Done (None, NilReturnCapacityToCache, True, Some e)
                        | Inr v \<Rightarrow> Done (Some v, ReturnToCache (ncells st), True, None))"
    using again by blast
  have all2: "\<forall>now'. 0 < sweeps ?st \<longrightarrow>
                runSweep now' [k] ?st = Done (?st\<lparr>entries := entries st, sweeps := sweeps ?st - 1\<rparr>)"
    using one by blast
  have all3: "\<forall>now' ks st''.
                0 < sweeps ?st \<and> k \<in> set ks
                \<and> (\<forall>k' e. entries st k' = Some e \<longrightarrow>
                             available e < nvchans st \<and> capacity e < ntchans st)
                \<and> runSweep now' ks ?st = Done st''
                \<longrightarrow> entries st'' k = None
                    \<and> (\<forall>rnd' ctx' now'' f' n'.
                          1 \<le> n' \<and> n' \<le> maxChan st \<longrightarrow>
                          outcome (AddAndAcquire rnd' ctx' now'' k f' n' st'') =
                            (case fst (f' w) of
                               Inl e \<Rightarrow> Done (None, NilReturnCapacityToCache, False, Some e)
                             | Inr v \<Rightarrow>
                                 Done (Some v, ReturnToCache (ncells st), False, None)))"
    using swept by blast
  show ?thesis
    unfolding Let_def Inl sum.case
    by (rule exI [of _ ?st])
       (rule conjI [OF conjI [OF a conjI [OF t3 conjI [OF c3 conjI [OF all1 conjI [OF all2 all3]]]]] rest])
qed


theorem AddAndAcquire_new_key_installs_witness:
  "\<exists>st' st''.
       AddAndAcquire 0 None (5 * Minute) 7 factory_fail 3 (NewLRUCache 1024 0 0 :: (nat, nat, nat) CachePool) =
           Done (st', None, NilReturnCapacityToCache, False, Some (Err ''dial''))
       \<and> chan_buf (tchans st' 0) = [1, 1, 1]
       \<and> entries st' 7 = Some entry_failing
       \<and> sweeps st' = 1
       \<and> outcome (AddAndAcquire 0 None (5 * Minute + 1) 7 factory_ok 3 st') =
           Done (None, NilReturnCapacityToCache, True, Some (Err ''dial''))
       \<and> runSweep (5 * Minute + 1) [7] st' = Done st''
       \<and> entries st'' 7 = None
       \<and> outcome (AddAndAcquire 0 None (5 * Minute + 2) 7 factory_ok 3 st'') =
           Done (Some 1, ReturnToCache 0, False, None)"
proof -
  let ?st = "NewLRUCache 1024 0 0 :: (nat, nat, nat) CachePool"
  have h1: "entries ?st 7 = None"
    by (simp add: NewLRUCache_def)
  have h2: "(1::int) \<le> 3"
    by simp
  have h3: "factory_fail (world ?st) = (Inl (Err ''dial''), 1)"
    by (simp add: NewLRUCache_def factory_fail_def)
  have h4: "3 \<le> maxChan ?st"
    by (simp add: NewLRUCache_def)
  note t = AddAndAcquire_new_key_installs [where st = ?st and k = 7 and cap = 3
      and f = factory_fail and r = "Inl (Err ''dial'')" and w = 1
      and rnd = 0 and ctx = None and now = "5 * Minute", OF h1 h2 h4 h3, unfolded Let_def sum.case]
  show ?thesis
    using t
    apply (elim exE conjE)
    subgoal premises p for st'
    proof -
      have sw: "sweeps st' = 1"
        using p(9) by (simp add: NewLRUCache_def)
      then have pos: "0 < sweeps st'"
        by simp
      let ?st'' = "st'\<lparr>entries := entries ?st, sweeps := sweeps st' - 1\<rparr>"
      have run: "runSweep (5 * Minute + 1) [7] st' = Done ?st''"
        using p(10) pos by blast
      have tk: "chan_buf (tchans st' 0) = [1, 1, 1]"
        using p(3) by (simp add: NewLRUCache_def numeral_3_eq_3)
      have en: "entries st' 7 = Some entry_failing"
        using p(2) by (simp add: NewLRUCache_def entry_failing_def)
      have again: "outcome (AddAndAcquire 0 None (5 * Minute + 1) 7 factory_ok 3 st') =
           Done (None, NilReturnCapacityToCache, True, Some (Err ''dial''))"
        using p(7) [rule_format, of None 0 "5 * Minute + 1" factory_ok 3]
        by (simp add: select_pick_def factory_fail_def)
      have wf: "\<forall>k' e. entries ?st k' = Some e \<longrightarrow>
                  available e < nvchans ?st \<and> capacity e < ntchans ?st"
        by (simp add: NewLRUCache_def)
      have mem: "(7::nat) \<in> set [7]"
        by simp
      from p(11) [rule_format, of "[7]" "5 * Minute + 1" ?st''] pos mem wf run
      have none: "entries ?st'' 7 = None"
        and fresh: "\<forall>rnd' ctx' now'' f' n'.
              1 \<le> n' \<and> n' \<le> maxChan ?st \<longrightarrow>
              outcome (AddAndAcquire rnd' ctx' now'' 7 f' n' ?st'') =
                (case fst (f' 1) of
                   Inl e \<Rightarrow> Done (None, NilReturnCapacityToCache, False, Some e)
                 | Inr v \<Rightarrow> Done (Some v, ReturnToCache (ncells ?st), False, None))"
        by blast+
      have ok: "outcome (AddAndAcquire 0 None (5 * Minute + 2) 7 factory_ok 3 ?st'') =
           Done (Some 1, ReturnToCache 0, False, None)"
        using fresh [rule_format, of 3 0 None "5 * Minute + 2" factory_ok]
        by (simp add: NewLRUCache_def factory_ok_def)
      show ?thesis
        by (rule exI [of _ st'], rule exI [of _ ?st''])
           (rule conjI [OF p(1) conjI [OF tk conjI [OF en conjI [OF sw conjI [OF again
              conjI [OF run conjI [OF none ok]]]]]]])
    qed
    done
qed

text \<open>
  C3 as it was stated also promised that after a failure a later call with a working
  factory succeeds. It does not when no sweep has run in between: here no sweep is
  even launched, the entry keeps the failing factory, the working one is ignored,
  and the later call fails with the same error; the only alternative of the
  \<open>select\<close> that can proceed is the capacity ticket. And it was stated for every cap:
  with a cap of zero the call blocks on the empty capacity channel, and with a cap
  that is negative or above what the run-time system allocates \<open>make\<close> panics.
\<close>

theorem AddAndAcquire_retry_counterexample:
  "AddAndAcquire 0 None 0 7 factory_fail 3 (NewLRUCache 1024 0 0) =
     Done (pool_failing, None, NilReturnCapacityToCache, False, Some (Err ''dial''))
   \<and> sweeps pool_failing = 0
   \<and> getValue_ready None entry_failing pool_failing = [FromCapacity]
   \<and> AddAndAcquire 0 None 1 7 factory_ok 3 pool_failing =
     Done (pool_failing\<lparr>world := 2\<rparr>, None, NilReturnCapacityToCache, True, Some (Err ''dial''))
   \<and> AddAndAcquire 0 None 0 7 factory_ok 0 (NewLRUCache 1024 0 0 :: (nat, nat, nat) CachePool) = Blocks
   \<and> AddAndAcquire 0 None 0 7 factory_ok (- 1) (NewLRUCache 1024 0 0 :: (nat, nat, nat) CachePool) = Panics
   \<and> AddAndAcquire 0 None 0 7 factory_ok 1025 (NewLRUCache 1024 0 0 :: (nat, nat, nat) CachePool) = Panics"
proof -
  have n: "entries (NewLRUCache 1024 0 0 :: (nat, nat, nat) CachePool) 7 = None"
    by (simp add: NewLRUCache_def)
  have z: "AddAndAcquire 0 None 0 7 factory_ok 0 (NewLRUCache 1024 0 0 :: (nat, nat, nat) CachePool) = Blocks"
    by (rule AddAndAcquire_new_key_cap_zero [OF n]) (simp add: NewLRUCache_def)
  have m: "AddAndAcquire 0 None 0 7 factory_ok (- 1) (NewLRUCache 1024 0 0 :: (nat, nat, nat) CachePool) = Panics"
    by (rule AddAndAcquire_new_key_cap_negative [OF n]) simp
  have l: "AddAndAcquire 0 None 0 7 factory_ok 1025 (NewLRUCache 1024 0 0 :: (nat, nat, nat) CachePool) = Panics"
    by (rule AddAndAcquire_new_key_cap_too_large [OF n]) (simp add: NewLRUCache_def)
  have e: "entries pool_failing 7 = Some entry_failing"
    by (simp add: pool_failing_def)
  have s0: "sweeps pool_failing = 0"
    by (simp add: pool_failing_def)
  have sw: "sweepCheck 1 pool_failing = pool_failing"
    by (simp add: sweepCheck_def Minute_def pool_failing_def)
  have rd: "getValue_ready None entry_failing pool_failing = [FromCapacity]"
    by (simp add: getValue_ready_def pool_failing_def entry_failing_def)
  have g: "getValue 0 None 1 entry_failing pool_failing =
             Done (pool_failing\<lparr>world := 2\<rparr>, None, NilReturnCapacityToCache, Some (Err ''dial''))"
    apply (simp add: getValue_def rd select_pick_def)
    apply (simp add: pool_failing_def entry_failing_def chan_recv_def createCacheValue_def
        factory_fail_def chan_send_def set_tchan_def)
    done
  show ?thesis
    by (simp add: pool_failing_reached rd AddAndAcquire_found [OF e] sw g z m l s0)
qed

subsection \<open>UpdateIfExists: the swap\<close>

lemma UpdateIfExists_swap_eq:
  assumes "0 \<le> m" and "m \<le> maxChan st"
    and "int (length (chan_buf (tchans st (capacity entry)))) \<le> chan_cap (tchans st (capacity entry))"
    and "int (length (chan_buf (tchans st (capacity entry)))) \<le> maxCapacity entry"
  shows "UpdateIfExists_swap k entry f m st =
           Done (st\<lparr>tchans := (tchans st)
                      (capacity entry := (tchans st (capacity entry))
                         \<lparr>chan_buf := replicate (length (chan_buf (tchans st (capacity entry)))) 1\<rparr>,
                       ntchans st := \<lparr>chan_cap = m, chan_buf = replicate
                         (nat (m - (maxCapacity entry - int (length (chan_buf (tchans st (capacity entry))))))) 1\<rparr>),
                    ntchans := Suc (ntchans st),
                    vchans := (vchans st)(nvchans st := \<lparr>chan_cap = m, chan_buf = []\<rparr>),
                    nvchans := Suc (nvchans st),
                    entries := (entries st)(k := Some (entry\<lparr>available := nvchans st, maxCapacity := m,
                                   capacity := ntchans st, createValue := f\<rparr>))\<rparr>,
                 available entry,
                 entry\<lparr>available := nvchans st, maxCapacity := m, capacity := ntchans st, createValue := f\<rparr>,
                 maxCapacity entry - int (length (chan_buf (tchans st (capacity entry)))))"
proof -
  let ?n = "length (chan_buf (tchans st (capacity entry)))"
  let ?inUse = "maxCapacity entry - int ?n"
  have g: "getAvailableCapacity entry st =
             Done (set_tchan (capacity entry)
                     ((tchans st (capacity entry))\<lparr>chan_buf := replicate ?n 1\<rparr>) st, int ?n)"
    using assms(3) by (simp add: getAvailableCapacity_def drain_capacity_eq fill_loop_eq)
  show ?thesis
    unfolding UpdateIfExists_swap_def
    using assms(1) assms(2) assms(4)
    by (simp add: make_chan_def g Let_def fill_loop_eq set_tchan_def)
qed

lemma vchans_update_triv: "ch = vchans st r \<Longrightarrow> st\<lparr>vchans := (vchans st)(r := ch)\<rparr> = st"
  by (cases st) simp

subsection \<open>UpdateIfExists: one turn of the loop\<close>

lemma UpdateIfExists_loop_done:
  "inUse \<le> 0 \<Longrightarrow>
   UpdateIfExists_loop entry f m old new inUse j err st = Done (st, j, err)"
  by (subst UpdateIfExists_loop.simps) simp

lemma UpdateIfExists_loop_excess_step:
  assumes "0 < inUse" and "chan_buf (vchans st old) = c # cs"
    and "cells st c = Some cv" and "\<not> lock cv" and "m \<le> j"
  shows "UpdateIfExists_loop entry f m old new inUse j err st =
         UpdateIfExists_loop entry f m old new (inUse - 1) j err
           (st\<lparr>vchans := (vchans st)(old := (vchans st old)\<lparr>chan_buf := cs\<rparr>),
               closedLog := closedLog st @ [cv_value cv]\<rparr>)"
  using assms
  by (subst UpdateIfExists_loop.simps)
     (simp add: chan_recv_def closeExcess_def set_vchan_def Close_def)

lemma UpdateIfExists_loop_fail_step:
  assumes "0 < inUse" and "chan_buf (vchans st old) = c # cs"
    and "cells st c = Some cv" and "\<not> lock cv" and "j < m"
    and "f (world st) = (Inl e, w)"
    and "int (length (chan_buf (tchans st (capacity entry)))) < chan_cap (tchans st (capacity entry))"
  shows "UpdateIfExists_loop entry f m old new inUse j err st =
         UpdateIfExists_loop entry f m old new (inUse - 1) j (errors_Join err (Some e))
           (st\<lparr>vchans := (vchans st)(old := (vchans st old)\<lparr>chan_buf := cs\<rparr>),
               closedLog := closedLog st @ [cv_value cv],
               world := w,
               tchans := (tchans st)(capacity entry := (tchans st (capacity entry))
                  \<lparr>chan_buf := chan_buf (tchans st (capacity entry)) @ [1]\<rparr>)\<rparr>)"
  using assms
  by (subst UpdateIfExists_loop.simps)
     (simp add: chan_recv_def updateValue_def set_vchan_def Close_def chan_send_def set_tchan_def)

lemma UpdateIfExists_loop_keep_step:
  assumes "0 < inUse" and "chan_buf (vchans st old) = c # cs"
    and "cells st c = Some cv" and "\<not> lock cv" and "j < m"
    and "f (world st) = (Inr v, w)"
    and "old \<noteq> new"
    and "int (length (chan_buf (vchans st new))) < chan_cap (vchans st new)"
  shows "UpdateIfExists_loop entry f m old new inUse j err st =
         UpdateIfExists_loop entry f m old new (inUse - 1) (j + 1) err
           (st\<lparr>vchans := (vchans st)
                  (old := (vchans st old)\<lparr>chan_buf := cs\<rparr>,
                   new := (vchans st new)\<lparr>chan_buf := chan_buf (vchans st new) @ [c]\<rparr>),
               closedLog := closedLog st @ [cv_value cv],
               world := w,
               cells := (cells st)(c := Some (cv\<lparr>cv_value := v, returnChan := new\<rparr>))\<rparr>)"
  using assms
  apply (subst UpdateIfExists_loop.simps)
  apply (simp add: chan_recv_def updateValue_def set_vchan_def Close_def chan_send_def set_cell_def)
  apply (rule arg_cong [where f = "UpdateIfExists_loop entry f m old new (inUse - 1) (j + 1) err"])
  apply simp
  done

text \<open>Once \<open>j\<close> has reached \<open>maxEntries\<close>, the rest of the loop only closes.\<close>

lemma UpdateIfExists_loop_excess:
  assumes "m \<le> j" and "chan_buf (vchans st old) = bs"
    and "inUse \<le> int (length bs)" and "allIdle st (take (nat inUse) bs)"
  shows "UpdateIfExists_loop entry f m old new inUse j err st =
           Done (st\<lparr>vchans := (vchans st)(old := (vchans st old)\<lparr>chan_buf := drop (nat inUse) bs\<rparr>),
                    closedLog := closedLog st @ valuesOf st (take (nat inUse) bs)\<rparr>,
                 j, err)"
  using assms
proof (induction "nat inUse" arbitrary: inUse bs st)
  case 0
  then have z: "inUse \<le> 0" "drop (nat inUse) bs = bs" "take (nat inUse) bs = []"
    by simp_all
  have "(vchans st old)\<lparr>chan_buf := bs\<rparr> = vchans st old"
    using "0.prems"(2) by simp
  then have e: "st\<lparr>vchans := (vchans st)(old := (vchans st old)\<lparr>chan_buf := bs\<rparr>),
               closedLog := closedLog st @ valuesOf st []\<rparr> = st"
    by (simp add: vchans_update_triv)
  show ?case
    unfolding UpdateIfExists_loop_done [OF z(1)] z(2) z(3) e by (rule refl)
next
  case (Suc n)
  from Suc.hyps(2) have pos: "0 < inUse" and n: "n = nat (inUse - 1)"
    by linarith+
  from Suc.prems(3) pos obtain c cs where bs: "bs = c # cs"
    by (cases bs) auto
  have tk: "take (nat inUse) bs = c # take n cs"
    unfolding bs Suc.hyps(2) [symmetric] by simp
  from Suc.prems(4) obtain cv where cv: "cells st c = Some cv" "\<not> lock cv"
    and idle: "allIdle st (take n cs)"
    unfolding tk by (auto simp: allIdle_def split: option.splits)
  let ?st1 = "st\<lparr>vchans := (vchans st)(old := (vchans st old)\<lparr>chan_buf := cs\<rparr>),
                 closedLog := closedLog st @ [cv_value cv]\<rparr>"
  have cells1: "cells ?st1 = cells st"
    by simp
  have step: "UpdateIfExists_loop entry f m old new inUse j err st =
              UpdateIfExists_loop entry f m old new (inUse - 1) j err ?st1"
    using Suc.prems(2)
    by (intro UpdateIfExists_loop_excess_step [OF pos _ cv Suc.prems(1)]) (simp add: bs)
  have ih: "UpdateIfExists_loop entry f m old new (inUse - 1) j err ?st1 =
           Done (?st1\<lparr>vchans := (vchans ?st1)(old := (vchans ?st1 old)\<lparr>chan_buf := drop (nat (inUse - 1)) cs\<rparr>),
                    closedLog := closedLog ?st1 @ valuesOf ?st1 (take (nat (inUse - 1)) cs)\<rparr>,
                 j, err)"
    using Suc.prems(3) idle
    by (intro Suc.hyps(1) [OF n Suc.prems(1)])
       (simp_all add: bs allIdle_cells [OF cells1] n)
  have dr: "drop (nat inUse) bs = drop n cs"
    unfolding bs Suc.hyps(2) [symmetric] by simp
  show ?case
    unfolding step ih tk dr
    by (simp add: valuesOf_cells [OF cells1] valuesOf_Cons [OF cv(1)] n)
qed

subsection \<open>UpdateIfExists: what the loop has done when it ends\<close>




lemma errors_Join_Some [simp]: "errors_Join err (Some e) \<noteq> None"
  by (cases err) (simp_all add: errors_Join_def map_filter_simps)


lemma UpdateIfExists_found:
  assumes "entries st k = Some entry"
    and "UpdateIfExists_swap k entry f m st = Done (st1, old, entry1, inUse)"
  shows "UpdateIfExists k f m st =
           (case UpdateIfExists_loop entry1 f m old (available entry1) inUse 0 None st1 of
              Blocks \<Rightarrow> Blocks
            | Panics \<Rightarrow> Panics
            | Done (st2, j, err) \<Rightarrow>
                Done (st2, True, if err \<noteq> None \<and> j = 0 then err else None))"
  using assms by (simp add: UpdateIfExists_def split: exec.splits)

subsection \<open>UpdateIfExists: the loop from its first turn to its last\<close>

lemma length_calls [simp]: "length (calls f n w) = n"
  by (induction n arbitrary: w) simp_all

lemma failures_simps [simp]:
  "failures [] = []"
  "failures (Inl e # rs) = e # failures rs"
  "failures (Inr v # rs) = failures rs"
  by (simp_all add: failures_def map_filter_simps)

lemma successes_simps [simp]:
  "successes [] = []"
  "successes (Inl e # rs) = successes rs"
  "successes (Inr v # rs) = v # successes rs"
  by (simp_all add: successes_def map_filter_simps)

lemma rebuilt_simps [simp]:
  "rebuilt [] rs = []"
  "rebuilt cs [] = []"
  "rebuilt (c # cs) (Inl e # rs) = rebuilt cs rs"
  "rebuilt (c # cs) (Inr v # rs) = c # rebuilt cs rs"
  by (simp_all add: rebuilt_def map_filter_simps)

lemma length_rebuilt: "length cs = length rs \<Longrightarrow> length (rebuilt cs rs) = length (successes rs)"
proof (induction cs arbitrary: rs)
  case Nil
  then show ?case by simp
next
  case (Cons c cs)
  then obtain r rs' where "rs = r # rs'" by (cases rs) auto
  with Cons show ?case by (cases r) auto
qed

lemma joinAll_simps [simp]:
  "joinAll err [] = err"
  "joinAll err (e # es) = joinAll (errors_Join err (Some e)) es"
  by (simp_all add: joinAll_def)

lemma joinAll_None: "joinAll err es = None \<longleftrightarrow> err = None \<and> es = []"
  by (induction es arbitrary: err) auto

lemma length_successes_le: "length (successes rs) \<le> length rs"
  by (simp add: successes_def map_filter_def)

lemma length_failures_successes: "length (failures rs) + length (successes rs) = length rs"
proof (induction rs)
  case Nil
  then show ?case by simp
next
  case (Cons r rs)
  then show ?case by (cases r) auto
qed

lemma successes_butlast_le: "length (successes rs) \<le> Suc (length (successes (butlast rs)))"
proof (induction rs)
  case Nil
  then show ?case by simp
next
  case (Cons r rs)
  then show ?case by (cases r; cases "rs = []") auto
qed

lemma valuesOf_append: "valuesOf st (as @ bs) = valuesOf st as @ valuesOf st bs"
  by (simp add: valuesOf_def map_filter_def)

lemma valuesOf_cong:
  "(\<And>c. c \<in> set cs \<Longrightarrow> cells st' c = cells st c) \<Longrightarrow> valuesOf st' cs = valuesOf st cs"
  by (induction cs) (auto simp: valuesOf_def map_filter_simps split: option.splits)

lemma allIdle_cong:
  "(\<And>c. c \<in> set cs \<Longrightarrow> cells st' c = cells st c) \<Longrightarrow> allIdle st' cs = allIdle st cs"
  by (induction cs) (simp_all add: allIdle_def)


lemma calls_Suc: "f w = (r, w1) \<Longrightarrow> calls f (Suc n) w = r # calls f n w1"
  by simp

lemma world_after_Suc: "f w = (r, w1) \<Longrightarrow> world_after f (Suc n) w = world_after f n w1"
  by simp

lemma UpdateIfExists_loop_rebuilds:
  assumes "old \<noteq> new"
    and "chan_buf (vchans s old) = bs @ rest"
    and "allIdle s bs" and "distinct bs"
    and "0 \<le> n'"
    and "bs \<noteq> [] \<longrightarrow> j + int (length (successes (butlast (calls f (length bs) (world s))))) < m"
    and "int (length (chan_buf (tchans s (capacity entry))))
           + int (length (failures (calls f (length bs) (world s))))
           \<le> chan_cap (tchans s (capacity entry))"
    and "int (length (chan_buf (vchans s new)))
           + int (length (successes (calls f (length bs) (world s))))
           \<le> chan_cap (vchans s new)"
  shows "\<exists>s'. UpdateIfExists_loop entry f m old new (int (length bs) + n') j err s
               = UpdateIfExists_loop entry f m old new n'
                   (j + int (length (successes (calls f (length bs) (world s)))))
                   (joinAll err (failures (calls f (length bs) (world s)))) s'
            \<and> vchans s' = (vchans s)
                 (old := (vchans s old)\<lparr>chan_buf := rest\<rparr>,
                  new := (vchans s new)\<lparr>chan_buf := chan_buf (vchans s new)
                            @ rebuilt bs (calls f (length bs) (world s))\<rparr>)
            \<and> tchans s' = (tchans s)
                 (capacity entry := (tchans s (capacity entry))
                    \<lparr>chan_buf := chan_buf (tchans s (capacity entry))
                       @ replicate (length (failures (calls f (length bs) (world s)))) 1\<rparr>)
            \<and> world s' = world_after f (length bs) (world s)
            \<and> closedLog s' = closedLog s @ valuesOf s bs
            \<and> entries s' = entries s
            \<and> (\<forall>c. c \<notin> set bs \<longrightarrow> cells s' c = cells s c)
            \<and> list_all2 (\<lambda>c r. cells s' c =
                  (case r of
                     Inl e \<Rightarrow> cells s c
                   | Inr v \<Rightarrow> map_option (\<lambda>cv. cv\<lparr>cv_value := v, returnChan := new\<rparr>) (cells s c)))
                 bs (calls f (length bs) (world s))"
  using assms(2-8)
proof (induction bs arbitrary: s j err)
  case Nil
  have v: "(vchans s)(old := (vchans s old)\<lparr>chan_buf := rest\<rparr>,
                      new := (vchans s new)\<lparr>chan_buf := chan_buf (vchans s new)\<rparr>) = vchans s"
    using Nil.prems(1) by (simp add: fun_eq_iff)
  have t: "(tchans s)(capacity entry := (tchans s (capacity entry))
                    \<lparr>chan_buf := chan_buf (tchans s (capacity entry))\<rparr>) = tchans s"
    by (simp add: fun_eq_iff)
  show ?case
    using Nil.prems(1) by (intro exI [of _ s]) (auto simp: fun_eq_iff)
next
  case (Cons c cs)
  let ?t = "capacity entry"
  from Cons.prems(2) obtain cv where cv: "cells s c = Some cv" "\<not> lock cv"
    and idle: "allIdle s cs"
    by (auto simp: allIdle_def split: option.splits)
  from Cons.prems(3) have nin: "c \<notin> set cs" and dist: "distinct cs"
    by simp_all
  obtain r w1 where fw: "f (world s) = (r, w1)"
    by (cases "f (world s)")
  let ?rs = "calls f (length cs) w1"
  have cl: "calls f (length (c # cs)) (world s) = r # ?rs"
    using fw by simp
  have wa: "world_after f (length (c # cs)) (world s) = world_after f (length cs) w1"
    using fw by simp
  have pos: "0 < int (length (c # cs)) + n'"
    using Cons.prems(4) by simp
  have n1: "int (length (c # cs)) + n' - 1 = int (length cs) + n'"
    by simp
  have q: "chan_buf (vchans s old) = c # (cs @ rest)"
    using Cons.prems(1) by simp
  from Cons.prems(5) have pre: "j + int (length (successes (butlast (r # ?rs)))) < m"
    unfolding cl by simp
  then have jm: "j < m"
    by linarith
  have bl: "cs \<noteq> [] \<Longrightarrow> butlast (r # ?rs) = r # butlast ?rs"
    by (cases ?rs) (auto dest: arg_cong [where f = length])
  show ?case
  proof (cases r)
    case (Inl e)
    let ?s1 = "s\<lparr>vchans := (vchans s)(old := (vchans s old)\<lparr>chan_buf := cs @ rest\<rparr>),
                  closedLog := closedLog s @ [cv_value cv],
                  world := w1,
                  tchans := (tchans s)(?t := (tchans s ?t)
                     \<lparr>chan_buf := chan_buf (tchans s ?t) @ [1]\<rparr>)\<rparr>"
    from Cons.prems(6) have room: "int (length (chan_buf (tchans s ?t))) < chan_cap (tchans s ?t)"
      unfolding cl Inl by simp
    have step: "UpdateIfExists_loop entry f m old new (int (length (c # cs)) + n') j err s =
                UpdateIfExists_loop entry f m old new (int (length cs) + n') j
                  (errors_Join err (Some e)) ?s1"
      using UpdateIfExists_loop_fail_step [where st = s and f = f and entry = entry and old = old
          and new = new and err = err, OF pos q cv jm fw [unfolded Inl] room]
      unfolding n1 .
    have c1: "cells ?s1 = cells s"
      by simp
    have h1: "chan_buf (vchans ?s1 old) = cs @ rest"
      by simp
    have h2: "allIdle ?s1 cs"
      using idle by (simp add: allIdle_cells [OF c1])
    have h5: "cs \<noteq> [] \<longrightarrow> j + int (length (successes (butlast (calls f (length cs) (world ?s1))))) < m"
      using pre bl by (auto simp: Inl)
    have h6: "int (length (chan_buf (tchans ?s1 ?t)))
           + int (length (failures (calls f (length cs) (world ?s1)))) \<le> chan_cap (tchans ?s1 ?t)"
      using Cons.prems(6) unfolding cl Inl by simp
    have h7: "int (length (chan_buf (vchans ?s1 new)))
           + int (length (successes (calls f (length cs) (world ?s1)))) \<le> chan_cap (vchans ?s1 new)"
      using Cons.prems(7) assms(1) unfolding cl Inl by simp
    have ws: "world ?s1 = w1"
      by simp
    from Cons.IH [OF h1 h2 dist Cons.prems(4) h5 h6 h7, of "errors_Join err (Some e)", unfolded ws]
    obtain s' where
      l: "UpdateIfExists_loop entry f m old new (int (length cs) + n') j (errors_Join err (Some e)) ?s1
            = UpdateIfExists_loop entry f m old new n'
                (j + int (length (successes ?rs))) (joinAll (errors_Join err (Some e)) (failures ?rs)) s'"
      and v: "vchans s' = (vchans ?s1)
                 (old := (vchans ?s1 old)\<lparr>chan_buf := rest\<rparr>,
                  new := (vchans ?s1 new)\<lparr>chan_buf := chan_buf (vchans ?s1 new) @ rebuilt cs ?rs\<rparr>)"
      and t: "tchans s' = (tchans ?s1)
                 (?t := (tchans ?s1 ?t)
                    \<lparr>chan_buf := chan_buf (tchans ?s1 ?t) @ replicate (length (failures ?rs)) 1\<rparr>)"
      and w: "world s' = world_after f (length cs) w1"
      and cg: "closedLog s' = closedLog ?s1 @ valuesOf ?s1 cs"
      and en: "entries s' = entries ?s1"
      and fr: "\<forall>d. d \<notin> set cs \<longrightarrow> cells s' d = cells ?s1 d"
      and rb: "list_all2 (\<lambda>c r. cells s' c =
                  (case r of
                     Inl e \<Rightarrow> cells ?s1 c
                   | Inr v \<Rightarrow> map_option (\<lambda>cv. cv\<lparr>cv_value := v, returnChan := new\<rparr>) (cells ?s1 c)))
                 cs ?rs"
      by blast
    have v': "vchans s' = (vchans s)
                 (old := (vchans s old)\<lparr>chan_buf := rest\<rparr>,
                  new := (vchans s new)\<lparr>chan_buf := chan_buf (vchans s new)
                            @ rebuilt (c # cs) (r # ?rs)\<rparr>)"
      unfolding v Inl using assms(1) by (auto simp: fun_eq_iff)
    have t': "tchans s' = (tchans s)
                 (?t := (tchans s ?t)
                    \<lparr>chan_buf := chan_buf (tchans s ?t)
                       @ replicate (length (failures (r # ?rs))) 1\<rparr>)"
      unfolding t Inl by (auto simp: fun_eq_iff replicate_append_same)
    have cg': "closedLog s' = closedLog s @ valuesOf s (c # cs)"
      unfolding cg by (simp add: valuesOf_cells [OF c1] valuesOf_Cons [OF cv(1)])
    have fr': "\<forall>d. d \<notin> set (c # cs) \<longrightarrow> cells s' d = cells s d"
      using fr by simp
    have hd: "cells s' c = cells s c"
      using fr nin by simp
    have rb': "list_all2 (\<lambda>c r. cells s' c =
                  (case r of
                     Inl e \<Rightarrow> cells s c
                   | Inr v \<Rightarrow> map_option (\<lambda>cv. cv\<lparr>cv_value := v, returnChan := new\<rparr>) (cells s c)))
                 (c # cs) (r # ?rs)"
      using rb [unfolded c1] hd by (simp add: Inl)
    have e1: "UpdateIfExists_loop entry f m old new (int (length (c # cs)) + n') j err s =
              UpdateIfExists_loop entry f m old new n'
                (j + int (length (successes (r # ?rs)))) (joinAll err (failures (r # ?rs))) s'"
      unfolding step l by (simp add: Inl)
    have en': "entries s' = entries s"
      using en by simp
    show ?thesis
      unfolding cl wa
      by (rule exI [of _ s'])
         (rule conjI [OF e1 conjI [OF v' conjI [OF t' conjI [OF w conjI [OF cg'
            conjI [OF en' conjI [OF fr' rb']]]]]]])
  next
    case (Inr v)
    let ?s1 = "s\<lparr>vchans := (vchans s)
                    (old := (vchans s old)\<lparr>chan_buf := cs @ rest\<rparr>,
                     new := (vchans s new)\<lparr>chan_buf := chan_buf (vchans s new) @ [c]\<rparr>),
                  closedLog := closedLog s @ [cv_value cv],
                  world := w1,
                  cells := (cells s)(c := Some (cv\<lparr>cv_value := v, returnChan := new\<rparr>))\<rparr>"
    from Cons.prems(7) have room: "int (length (chan_buf (vchans s new))) < chan_cap (vchans s new)"
      unfolding cl Inr by simp
    have step: "UpdateIfExists_loop entry f m old new (int (length (c # cs)) + n') j err s =
                UpdateIfExists_loop entry f m old new (int (length cs) + n') (j + 1) err ?s1"
      using UpdateIfExists_loop_keep_step [where st = s and f = f and entry = entry and old = old
          and new = new and err = err, OF pos q cv jm fw [unfolded Inr] assms(1) room]
      unfolding n1 .
    have c1: "\<And>d. d \<in> set cs \<Longrightarrow> cells ?s1 d = cells s d"
      using nin by auto
    have h1: "chan_buf (vchans ?s1 old) = cs @ rest"
      using assms(1) by simp
    have h2: "allIdle ?s1 cs"
      using idle by (simp add: allIdle_cong [OF c1])
    have h5: "cs \<noteq> [] \<longrightarrow> j + 1 + int (length (successes (butlast (calls f (length cs) (world ?s1))))) < m"
      using pre bl by (auto simp: Inr)
    have h6: "int (length (chan_buf (tchans ?s1 ?t)))
           + int (length (failures (calls f (length cs) (world ?s1)))) \<le> chan_cap (tchans ?s1 ?t)"
      using Cons.prems(6) unfolding cl Inr by simp
    have h7: "int (length (chan_buf (vchans ?s1 new)))
           + int (length (successes (calls f (length cs) (world ?s1)))) \<le> chan_cap (vchans ?s1 new)"
      using Cons.prems(7) assms(1) unfolding cl Inr by simp
    have ws: "world ?s1 = w1"
      by simp
    from Cons.IH [OF h1 h2 dist Cons.prems(4) h5 h6 h7, of err, unfolded ws]
    obtain s' where
      l: "UpdateIfExists_loop entry f m old new (int (length cs) + n') (j + 1) err ?s1
            = UpdateIfExists_loop entry f m old new n'
                (j + 1 + int (length (successes ?rs))) (joinAll err (failures ?rs)) s'"
      and vv: "vchans s' = (vchans ?s1)
                 (old := (vchans ?s1 old)\<lparr>chan_buf := rest\<rparr>,
                  new := (vchans ?s1 new)\<lparr>chan_buf := chan_buf (vchans ?s1 new) @ rebuilt cs ?rs\<rparr>)"
      and t: "tchans s' = (tchans ?s1)
                 (?t := (tchans ?s1 ?t)
                    \<lparr>chan_buf := chan_buf (tchans ?s1 ?t) @ replicate (length (failures ?rs)) 1\<rparr>)"
      and w: "world s' = world_after f (length cs) w1"
      and cg: "closedLog s' = closedLog ?s1 @ valuesOf ?s1 cs"
      and en: "entries s' = entries ?s1"
      and fr: "\<forall>d. d \<notin> set cs \<longrightarrow> cells s' d = cells ?s1 d"
      and rb: "list_all2 (\<lambda>c r. cells s' c =
                  (case r of
                     Inl e \<Rightarrow> cells ?s1 c
                   | Inr v \<Rightarrow> map_option (\<lambda>cv. cv\<lparr>cv_value := v, returnChan := new\<rparr>) (cells ?s1 c)))
                 cs ?rs"
      by blast
    have v': "vchans s' = (vchans s)
                 (old := (vchans s old)\<lparr>chan_buf := rest\<rparr>,
                  new := (vchans s new)\<lparr>chan_buf := chan_buf (vchans s new)
                            @ rebuilt (c # cs) (r # ?rs)\<rparr>)"
      unfolding vv Inr using assms(1) by (auto simp: fun_eq_iff)
    have t': "tchans s' = (tchans s)
                 (?t := (tchans s ?t)
                    \<lparr>chan_buf := chan_buf (tchans s ?t)
                       @ replicate (length (failures (r # ?rs))) 1\<rparr>)"
      unfolding t Inr by (auto simp: fun_eq_iff)
    have cg': "closedLog s' = closedLog s @ valuesOf s (c # cs)"
      unfolding cg by (simp add: valuesOf_cong [OF c1] valuesOf_Cons [OF cv(1)])
    have fr': "\<forall>d. d \<notin> set (c # cs) \<longrightarrow> cells s' d = cells s d"
      using fr by simp
    have hd: "cells s' c = map_option (\<lambda>cv. cv\<lparr>cv_value := v, returnChan := new\<rparr>) (cells s c)"
      using fr nin cv by simp
    have tl: "list_all2 (\<lambda>c r. cells s' c =
                  (case r of
                     Inl e \<Rightarrow> cells s c
                   | Inr v \<Rightarrow> map_option (\<lambda>cv. cv\<lparr>cv_value := v, returnChan := new\<rparr>) (cells s c)))
                 cs ?rs"
      using rb
    proof (rule list.rel_mono_strong)
      fix d r'
      assume d: "d \<in> set cs"
        and a: "cells s' d =
              (case r' of
                 Inl e \<Rightarrow> cells ?s1 d
               | Inr v \<Rightarrow> map_option (\<lambda>cv. cv\<lparr>cv_value := v, returnChan := new\<rparr>) (cells ?s1 d))"
      show "cells s' d =
              (case r' of
                 Inl e \<Rightarrow> cells s d
               | Inr v \<Rightarrow> map_option (\<lambda>cv. cv\<lparr>cv_value := v, returnChan := new\<rparr>) (cells s d))"
        using a unfolding c1 [OF d] .
    qed
    have rb': "list_all2 (\<lambda>c r. cells s' c =
                  (case r of
                     Inl e \<Rightarrow> cells s c
                   | Inr v \<Rightarrow> map_option (\<lambda>cv. cv\<lparr>cv_value := v, returnChan := new\<rparr>) (cells s c)))
                 (c # cs) (r # ?rs)"
      using tl hd by (simp add: Inr)
    have e1: "UpdateIfExists_loop entry f m old new (int (length (c # cs)) + n') j err s =
              UpdateIfExists_loop entry f m old new n'
                (j + int (length (successes (r # ?rs)))) (joinAll err (failures (r # ?rs))) s'"
      unfolding step l by (simp add: Inr add.assoc)
    have en': "entries s' = entries s"
      using en by simp
    show ?thesis
      unfolding cl wa
      by (rule exI [of _ s'])
         (rule conjI [OF e1 conjI [OF v' conjI [OF t' conjI [OF w conjI [OF cg'
            conjI [OF en' conjI [OF fr' rb']]]]]]])
  qed
qed


lemma allIdle_subset: "allIdle st bs \<Longrightarrow> set cs \<subseteq> set bs \<Longrightarrow> allIdle st cs"
  by (auto simp: allIdle_def list_all_iff)

lemma UpdateIfExists_loop_run:
  assumes "old \<noteq> new"
    and "chan_buf (vchans s old) = bs"
    and "allIdle s bs" and "distinct bs"
    and "p \<le> length bs"
    and "p \<noteq> 0 \<longrightarrow> j + int (length (successes (butlast (calls f p (world s))))) < m"
    and "p < length bs \<longrightarrow> m \<le> j + int (length (successes (calls f p (world s))))"
    and "int (length (chan_buf (tchans s (capacity entry))))
           + int (length (failures (calls f p (world s))))
           \<le> chan_cap (tchans s (capacity entry))"
    and "int (length (chan_buf (vchans s new)))
           + int (length (successes (calls f p (world s))))
           \<le> chan_cap (vchans s new)"
  shows "\<exists>s'. UpdateIfExists_loop entry f m old new (int (length bs)) j err s
               = Done (s', j + int (length (successes (calls f p (world s)))),
                       joinAll err (failures (calls f p (world s))))
            \<and> vchans s' = (vchans s)
                 (old := (vchans s old)\<lparr>chan_buf := []\<rparr>,
                  new := (vchans s new)\<lparr>chan_buf := chan_buf (vchans s new)
                            @ rebuilt (take p bs) (calls f p (world s))\<rparr>)
            \<and> tchans s' = (tchans s)
                 (capacity entry := (tchans s (capacity entry))
                    \<lparr>chan_buf := chan_buf (tchans s (capacity entry))
                       @ replicate (length (failures (calls f p (world s)))) 1\<rparr>)
            \<and> world s' = world_after f p (world s)
            \<and> closedLog s' = closedLog s @ valuesOf s bs
            \<and> entries s' = entries s
            \<and> (\<forall>c. c \<notin> set (take p bs) \<longrightarrow> cells s' c = cells s c)
            \<and> list_all2 (\<lambda>c r. cells s' c =
                  (case r of
                     Inl e \<Rightarrow> cells s c
                   | Inr v \<Rightarrow> map_option (\<lambda>cv. cv\<lparr>cv_value := v, returnChan := new\<rparr>) (cells s c)))
                 (take p bs) (calls f p (world s))"
proof -
  let ?b1 = "take p bs" and ?b2 = "drop p bs"
  let ?n = "int (length ?b2)"
  let ?rs = "calls f p (world s)"
  let ?j = "j + int (length (successes ?rs))"
  let ?err = "joinAll err (failures ?rs)"
  have lp: "length ?b1 = p"
    using assms(5) by simp
  have g1: "chan_buf (vchans s old) = ?b1 @ ?b2"
    using assms(2) by simp
  have g2: "allIdle s ?b1"
    by (rule allIdle_subset [OF assms(3)]) (rule set_take_subset)
  have g3: "distinct ?b1"
    using assms(4) by simp
  have g4: "0 \<le> ?n"
    by simp
  have g5: "?b1 \<noteq> [] \<longrightarrow> j + int (length (successes (butlast (calls f (length ?b1) (world s))))) < m"
    unfolding lp using assms(6) by auto
  have g6: "int (length (chan_buf (tchans s (capacity entry))))
           + int (length (failures (calls f (length ?b1) (world s))))
           \<le> chan_cap (tchans s (capacity entry))"
    unfolding lp by (rule assms(8))
  have g7: "int (length (chan_buf (vchans s new)))
           + int (length (successes (calls f (length ?b1) (world s))))
           \<le> chan_cap (vchans s new)"
    unfolding lp by (rule assms(9))
  have tot: "int p + ?n = int (length bs)"
    using assms(5) by simp
  from UpdateIfExists_loop_rebuilds [OF assms(1) g1 g2 g3 g4 g5 g6 g7, of err, unfolded lp tot]
  obtain s1 where
    l: "UpdateIfExists_loop entry f m old new (int (length bs)) j err s
          = UpdateIfExists_loop entry f m old new ?n ?j ?err s1"
    and v: "vchans s1 = (vchans s)
                 (old := (vchans s old)\<lparr>chan_buf := ?b2\<rparr>,
                  new := (vchans s new)\<lparr>chan_buf := chan_buf (vchans s new) @ rebuilt ?b1 ?rs\<rparr>)"
    and t: "tchans s1 = (tchans s)
                 (capacity entry := (tchans s (capacity entry))
                    \<lparr>chan_buf := chan_buf (tchans s (capacity entry))
                       @ replicate (length (failures ?rs)) 1\<rparr>)"
    and w: "world s1 = world_after f p (world s)"
    and cg: "closedLog s1 = closedLog s @ valuesOf s ?b1"
    and en: "entries s1 = entries s"
    and fr: "\<forall>c. c \<notin> set ?b1 \<longrightarrow> cells s1 c = cells s c"
    and rb: "list_all2 (\<lambda>c r. cells s1 c =
                  (case r of
                     Inl e \<Rightarrow> cells s c
                   | Inr v \<Rightarrow> map_option (\<lambda>cv. cv\<lparr>cv_value := v, returnChan := new\<rparr>) (cells s c)))
                 ?b1 ?rs"
    by blast
  show ?thesis
  proof (cases "p < length bs")
    case False
    with assms(5) have pe: "p = length bs"
      by simp
    then have z: "?n \<le> 0" and b2: "?b2 = []" and b1: "?b1 = bs"
      by simp_all
    have d: "UpdateIfExists_loop entry f m old new (int (length bs)) j err s = Done (s1, ?j, ?err)"
      unfolding l by (rule UpdateIfExists_loop_done [OF z])
    have cg': "closedLog s1 = closedLog s @ valuesOf s bs"
      using cg unfolding b1 .
    have v': "vchans s1 = (vchans s)
                 (old := (vchans s old)\<lparr>chan_buf := []\<rparr>,
                  new := (vchans s new)\<lparr>chan_buf := chan_buf (vchans s new) @ rebuilt ?b1 ?rs\<rparr>)"
      using v unfolding b2 .
    show ?thesis
      by (rule exI [of _ s1])
         (rule conjI [OF d conjI [OF v' conjI [OF t conjI [OF w conjI [OF cg'
            conjI [OF en conjI [OF fr rb]]]]]]])
  next
    case True
    with assms(7) have mj: "m \<le> ?j"
      by simp
    have q: "chan_buf (vchans s1 old) = ?b2"
      unfolding v using assms(1) by simp
    have le: "?n \<le> int (length ?b2)"
      by simp
    have dj: "\<And>c. c \<in> set ?b2 \<Longrightarrow> c \<notin> set ?b1"
      using assms(4) by (metis append_take_drop_id distinct_append disjoint_iff)
    have c2: "\<And>c. c \<in> set ?b2 \<Longrightarrow> cells s1 c = cells s c"
      using fr dj by blast
    have "allIdle s ?b2"
      by (rule allIdle_subset [OF assms(3)]) (rule set_drop_subset)
    then have i2: "allIdle s1 (take (nat ?n) ?b2)"
      by (simp add: allIdle_cong [OF c2])
    let ?s2 = "s1\<lparr>vchans := (vchans s1)(old := (vchans s1 old)\<lparr>chan_buf := drop (nat ?n) ?b2\<rparr>),
                  closedLog := closedLog s1 @ valuesOf s1 (take (nat ?n) ?b2)\<rparr>"
    have d: "UpdateIfExists_loop entry f m old new (int (length bs)) j err s = Done (?s2, ?j, ?err)"
      unfolding l by (rule UpdateIfExists_loop_excess [OF mj q le i2])
    have v': "vchans ?s2 = (vchans s)
                 (old := (vchans s old)\<lparr>chan_buf := []\<rparr>,
                  new := (vchans s new)\<lparr>chan_buf := chan_buf (vchans s new) @ rebuilt ?b1 ?rs\<rparr>)"
      using assms(1) by (auto simp: v fun_eq_iff)
    have t': "tchans ?s2 = (tchans s)
                 (capacity entry := (tchans s (capacity entry))
                    \<lparr>chan_buf := chan_buf (tchans s (capacity entry))
                       @ replicate (length (failures ?rs)) 1\<rparr>)"
      using t by simp
    have w': "world ?s2 = world_after f p (world s)"
      using w by simp
    have "valuesOf s ?b1 @ valuesOf s ?b2 = valuesOf s bs"
      unfolding valuesOf_append [symmetric] by simp
    then have cg': "closedLog ?s2 = closedLog s @ valuesOf s bs"
      by (simp add: cg valuesOf_cong [OF c2])
    have en': "entries ?s2 = entries s"
      using en by simp
    have fr': "\<forall>c. c \<notin> set ?b1 \<longrightarrow> cells ?s2 c = cells s c"
      using fr by simp
    have rb': "list_all2 (\<lambda>c r. cells ?s2 c =
                  (case r of
                     Inl e \<Rightarrow> cells s c
                   | Inr v \<Rightarrow> map_option (\<lambda>cv. cv\<lparr>cv_value := v, returnChan := new\<rparr>) (cells s c)))
                 ?b1 ?rs"
      using rb by simp
    show ?thesis
      by (rule exI [of _ ?s2])
         (rule conjI [OF d conjI [OF v' conjI [OF t' conjI [OF w' conjI [OF cg'
            conjI [OF en' conjI [OF fr' rb']]]]]]])
  qed
qed


lemma UpdateIfExists_run:
  assumes "entries st k = Some entry"
    and "0 \<le> m" and "m \<le> maxChan st"
    and "int (length (chan_buf (tchans st (capacity entry)))) \<le> chan_cap (tchans st (capacity entry))"
    and "available entry < nvchans st"
    and "chan_buf (vchans st (available entry)) = bs"
    and "int (length bs) + int (length (chan_buf (tchans st (capacity entry)))) = maxCapacity entry"
    and "allIdle st bs" and "distinct bs"
    and "p \<le> length bs"
    and "p \<noteq> 0 \<longrightarrow> int (length (successes (butlast (calls f p (world st))))) < m"
    and "p < length bs \<longrightarrow> m \<le> int (length (successes (calls f p (world st))))"
    and "int (nat (m - int (length bs))) + int (length (failures (calls f p (world st)))) \<le> m"
  shows "\<exists>st2.
           UpdateIfExists k f m st =
             Done (st2, True,
                   if failures (calls f p (world st)) \<noteq> [] \<and> successes (calls f p (world st)) = []
                   then joinAll None (failures (calls f p (world st))) else None)
         \<and> entries st2 k = Some (entry\<lparr>available := nvchans st, maxCapacity := m,
                                         capacity := ntchans st, createValue := f\<rparr>)
         \<and> vchans st2 (nvchans st) =
             \<lparr>chan_cap = m, chan_buf = rebuilt (take p bs) (calls f p (world st))\<rparr>
         \<and> tchans st2 (ntchans st) =
             \<lparr>chan_cap = m,
              chan_buf = replicate (nat (m - int (length bs))
                                    + length (failures (calls f p (world st)))) 1\<rparr>
         \<and> chan_buf (vchans st2 (available entry)) = []
         \<and> world st2 = world_after f p (world st)
         \<and> closedLog st2 = closedLog st @ valuesOf st bs
         \<and> (\<forall>c. c \<notin> set (take p bs) \<longrightarrow> cells st2 c = cells st c)
         \<and> list_all2 (\<lambda>c r. cells st2 c =
               (case r of
                  Inl e \<Rightarrow> cells st c
                | Inr v \<Rightarrow> map_option (\<lambda>cv. cv\<lparr>cv_value := v, returnChan := nvchans st\<rparr>) (cells st c)))
              (take p bs) (calls f p (world st))"
proof -
  let ?old = "available entry" and ?new = "nvchans st"
  let ?n = "length (chan_buf (tchans st (capacity entry)))"
  let ?inUse = "maxCapacity entry - int ?n"
  let ?entry1 = "entry\<lparr>available := nvchans st, maxCapacity := m, capacity := ntchans st,
                         createValue := f\<rparr>"
  let ?st1 = "st\<lparr>tchans := (tchans st)
                      (capacity entry := (tchans st (capacity entry))\<lparr>chan_buf := replicate ?n 1\<rparr>,
                       ntchans st := \<lparr>chan_cap = m, chan_buf = replicate (nat (m - ?inUse)) 1\<rparr>),
                    ntchans := Suc (ntchans st),
                    vchans := (vchans st)(nvchans st := \<lparr>chan_cap = m, chan_buf = []\<rparr>),
                    nvchans := Suc (nvchans st),
                    entries := (entries st)(k := Some ?entry1)\<rparr>"
  let ?rs = "calls f p (world st)"
  have iu: "?inUse = int (length bs)"
    using assms(7) by simp
  have le: "int ?n \<le> maxCapacity entry"
    using assms(7) by simp
  have sw: "UpdateIfExists_swap k entry f m st = Done (?st1, ?old, ?entry1, ?inUse)"
    by (rule UpdateIfExists_swap_eq [OF assms(2,3,4) le])
  have ne: "?old \<noteq> ?new"
    using assms(5) by simp
  have w1: "world ?st1 = world st"
    by simp
  have h2: "chan_buf (vchans ?st1 ?old) = bs"
    using ne assms(6) by simp
  have c1: "cells ?st1 = cells st"
    by simp
  have h3: "allIdle ?st1 bs"
    using assms(8) by (simp add: allIdle_cells [OF c1])
  have h6: "p \<noteq> 0 \<longrightarrow> 0 + int (length (successes (butlast (calls f p (world ?st1))))) < m"
    unfolding w1 using assms(11) by simp
  have h7: "p < length bs \<longrightarrow> m \<le> 0 + int (length (successes (calls f p (world ?st1))))"
    unfolding w1 using assms(12) by simp
  have h8: "int (length (chan_buf (tchans ?st1 (capacity ?entry1))))
           + int (length (failures (calls f p (world ?st1))))
           \<le> chan_cap (tchans ?st1 (capacity ?entry1))"
    unfolding w1 using assms(13) by (simp add: iu)
  have sm: "int (length (successes ?rs)) \<le> m"
  proof (cases "p = 0")
    case True
    with assms(2) show ?thesis by simp
  next
    case False
    with assms(11) successes_butlast_le [of ?rs] show ?thesis
      by linarith
  qed
  have h9: "int (length (chan_buf (vchans ?st1 ?new)))
           + int (length (successes (calls f p (world ?st1))))
           \<le> chan_cap (vchans ?st1 ?new)"
    unfolding w1 using sm by simp
  from UpdateIfExists_loop_run [where s = ?st1 and old = ?old and new = ?new and entry = ?entry1
      and f = f and m = m and j = 0 and err = None,
      OF ne h2 h3 assms(9) assms(10) h6 h7 h8 h9, unfolded w1]
  obtain st2 where
    l: "UpdateIfExists_loop ?entry1 f m ?old ?new (int (length bs)) 0 None ?st1
          = Done (st2, 0 + int (length (successes ?rs)), joinAll None (failures ?rs))"
    and v: "vchans st2 = (vchans ?st1)
                 (?old := (vchans ?st1 ?old)\<lparr>chan_buf := []\<rparr>,
                  ?new := (vchans ?st1 ?new)\<lparr>chan_buf := chan_buf (vchans ?st1 ?new)
                            @ rebuilt (take p bs) ?rs\<rparr>)"
    and t: "tchans st2 = (tchans ?st1)
                 (capacity ?entry1 := (tchans ?st1 (capacity ?entry1))
                    \<lparr>chan_buf := chan_buf (tchans ?st1 (capacity ?entry1))
                       @ replicate (length (failures ?rs)) 1\<rparr>)"
    and w: "world st2 = world_after f p (world st)"
    and cg: "closedLog st2 = closedLog ?st1 @ valuesOf ?st1 bs"
    and en: "entries st2 = entries ?st1"
    and fr: "\<forall>c. c \<notin> set (take p bs) \<longrightarrow> cells st2 c = cells ?st1 c"
    and rb: "list_all2 (\<lambda>c r. cells st2 c =
                  (case r of
                     Inl e \<Rightarrow> cells ?st1 c
                   | Inr v \<Rightarrow> map_option (\<lambda>cv. cv\<lparr>cv_value := v, returnChan := ?new\<rparr>) (cells ?st1 c)))
                 (take p bs) ?rs"
    by blast
  have a1: "available ?entry1 = ?new"
    by simp
  have r1: "UpdateIfExists k f m st =
             Done (st2, True,
                   if failures ?rs \<noteq> [] \<and> successes ?rs = []
                   then joinAll None (failures ?rs) else None)"
    unfolding UpdateIfExists_found [OF assms(1) sw] a1 l [folded iu]
    by (simp add: joinAll_None)
  have r2: "entries st2 k = Some ?entry1"
    unfolding en by simp
  have r3: "vchans st2 ?new = \<lparr>chan_cap = m, chan_buf = rebuilt (take p bs) ?rs\<rparr>"
    unfolding v by simp
  have r4: "tchans st2 (ntchans st) =
             \<lparr>chan_cap = m,
              chan_buf = replicate (nat (m - int (length bs)) + length (failures ?rs)) 1\<rparr>"
    unfolding t by (simp add: iu replicate_add)
  have r5: "chan_buf (vchans st2 ?old) = []"
    unfolding v using ne by simp
  have r7: "closedLog st2 = closedLog st @ valuesOf st bs"
    unfolding cg by (simp add: valuesOf_cells [OF c1])
  have r8: "\<forall>c. c \<notin> set (take p bs) \<longrightarrow> cells st2 c = cells st c"
    using fr unfolding c1 .
  have r9: "list_all2 (\<lambda>c r. cells st2 c =
               (case r of
                  Inl e \<Rightarrow> cells st c
                | Inr v \<Rightarrow> map_option (\<lambda>cv. cv\<lparr>cv_value := v, returnChan := ?new\<rparr>) (cells st c)))
              (take p bs) ?rs"
    using rb unfolding c1 .
  show ?thesis
    by (rule exI [of _ st2])
       (rule conjI [OF r1 conjI [OF r2 conjI [OF r3 conjI [OF r4 conjI [OF r5 conjI [OF w
          conjI [OF r7 conjI [OF r8 r9]]]]]]]])
qed



subsection \<open>UpdateIfExists: tickets of the new capacity and cells over the new cap\<close>




lemma pool_three_idle_swapped:
  "UpdateIfExists_swap 7 entry3 (factory_fail_at 3) 3 pool_three_idle =
     Done (pool_three_swapped, 0, entry3_flaky, 3)"
  by (simp add: UpdateIfExists_swap_def make_chan_def getAvailableCapacity_def
      drain_capacity.simps fill_loop.simps chan_recv_def chan_send_def set_tchan_def
      pool_three_idle_def pool_three_swapped_def entry3_def entry3_flaky_def Let_def)

lemma pool_three_swapped_partial:
  "UpdateIfExists_loop entry3_flaky (factory_fail_at 3) 3 0 1 3 0 None pool_three_swapped =
     Done (pool_three_partial, 2, Some (joinError [Err ''dial'']))"
  by (simp add: UpdateIfExists_loop.simps chan_recv_def chan_send_def
      set_tchan_def set_vchan_def set_cell_def closeExcess_def updateValue_def Close_def
      pool_three_swapped_def pool_three_partial_def entry3_flaky_def factory_fail_at_def
      errors_Join_def map_filter_simps Let_def)

lemma pool_three_idle_partial:
  "UpdateIfExists 7 (factory_fail_at 3) 3 pool_three_idle = Done (pool_three_partial, True, None)"
proof -
  have e: "entries pool_three_idle 7 = Some entry3"
    by (simp add: pool_three_idle_def)
  have a: "available entry3_flaky = 1"
    by (simp add: entry3_flaky_def)
  show ?thesis
    unfolding UpdateIfExists_found [OF e pool_three_idle_swapped] a pool_three_swapped_partial
    by simp
qed

subsection \<open>UpdateIfExists: rebuilds that fail\<close>

text \<open>
  C4, as amended. Let \<open>UpdateIfExists\<close> find an entry whose cells are all idle in its
  queue, with a new cap \<open>m\<close> that \<open>make\<close> accepts and that is not below the number
  \<open>inUse\<close> of these cells. Then every cell whose rebuild by \<open>updateValue\<close> fails sends
  one ticket to the capacity channel the entry has after the swap, and its error is
  joined to \<open>err\<close>; and the call returns. The new capacity channel then holds the
  \<open>m - inUse\<close> tickets of the swap and one ticket for every rebuild that failed, the
  new queue holds the cells whose rebuild succeeded, and the failed and the rebuilt
  cells together are the cells of the entry. The error returned is the joined error
  when there was a rebuild and every rebuild failed, and nil in every other case: when
  at least one cell was kept, the failures of the others are not reported to the
  caller. The turn of the loop on a cell whose rebuild fails is given as well, for
  any pool in which the new capacity channel has room for the ticket. The other
  hypotheses are those of a well-formed pool: the old capacity channel holds no more
  tickets than its capacity and than the old cap, the old queue is a channel that
  has been allocated, and no cell is in it twice.
\<close>

theorem UpdateIfExists_rebuild_failures:
  assumes "entries st k = Some entry"
    and "0 \<le> m" and "m \<le> maxChan st"
    and "int (length (chan_buf (tchans st (capacity entry)))) \<le> chan_cap (tchans st (capacity entry))"
    and "int (length (chan_buf (tchans st (capacity entry)))) \<le> maxCapacity entry"
    and "available entry < nvchans st"
  shows
    "let inUse = maxCapacity entry - int (length (chan_buf (tchans st (capacity entry))));
         entry1 = entry\<lparr>available := nvchans st, maxCapacity := m, capacity := ntchans st,
                         createValue := f\<rparr>;
         bs = chan_buf (vchans st (available entry));
         rs = calls f (length bs) (world st)
     in (\<exists>st1. UpdateIfExists_swap k entry f m st = Done (st1, available entry, entry1, inUse)
              \<and> tchans st1 (capacity entry1) =
                  \<lparr>chan_cap = m, chan_buf = replicate (nat (m - inUse)) 1\<rparr>)
        \<and> (\<forall>n j err s c cs cv e w.
              0 < n \<and> chan_buf (vchans s (available entry)) = c # cs
                \<and> cells s c = Some cv \<and> \<not> lock cv \<and> j < m \<and> f (world s) = (Inl e, w)
                \<and> int (length (chan_buf (tchans s (capacity entry1)))) < chan_cap (tchans s (capacity entry1))
              \<longrightarrow> UpdateIfExists_loop entry1 f m (available entry) (available entry1) n j err s =
                  UpdateIfExists_loop entry1 f m (available entry) (available entry1) (n - 1) j
                    (errors_Join err (Some e))
                    (s\<lparr>vchans := (vchans s)(available entry := (vchans s (available entry))\<lparr>chan_buf := cs\<rparr>),
                       closedLog := closedLog s @ [cv_value cv],
                       world := w,
                       tchans := (tchans s)(capacity entry1 := (tchans s (capacity entry1))
                          \<lparr>chan_buf := chan_buf (tchans s (capacity entry1)) @ [1]\<rparr>)\<rparr>))
        \<and> (int (length bs) = inUse \<and> inUse \<le> m \<and> allIdle st bs \<and> distinct bs
            \<longrightarrow> (\<exists>st2.
                   UpdateIfExists k f m st =
                     Done (st2, True,
                           if failures rs \<noteq> [] \<and> successes rs = []
                           then joinAll None (failures rs) else None)
                 \<and> entries st2 k = Some entry1
                 \<and> tchans st2 (capacity entry1) =
                     \<lparr>chan_cap = m,
                      chan_buf = replicate (nat (m - inUse) + length (failures rs)) 1\<rparr>
                 \<and> vchans st2 (available entry1) = \<lparr>chan_cap = m, chan_buf = rebuilt bs rs\<rparr>
                 \<and> length (rebuilt bs rs) = length (successes rs)
                 \<and> length (failures rs) + length (successes rs) = length bs
                 \<and> (joinAll None (failures rs) = None) = (failures rs = [])
                 \<and> world st2 = world_after f (length bs) (world st)
                 \<and> list_all2 (\<lambda>c r. cells st2 c =
                       (case r of
                          Inl e \<Rightarrow> cells st c
                        | Inr v \<Rightarrow> map_option (\<lambda>cv. cv\<lparr>cv_value := v, returnChan := available entry1\<rparr>)
                                     (cells st c)))
                      bs rs))"
proof -
  let ?tk = "chan_buf (tchans st (capacity entry))"
  let ?inUse = "maxCapacity entry - int (length ?tk)"
  let ?entry1 = "entry\<lparr>available := nvchans st, maxCapacity := m, capacity := ntchans st,
                         createValue := f\<rparr>"
  let ?bs = "chan_buf (vchans st (available entry))"
  let ?rs = "calls f (length ?bs) (world st)"
  let ?st1 = "st\<lparr>tchans := (tchans st)
                      (capacity entry := (tchans st (capacity entry))
                         \<lparr>chan_buf := replicate (length ?tk) 1\<rparr>,
                       ntchans st := \<lparr>chan_cap = m, chan_buf = replicate (nat (m - ?inUse)) 1\<rparr>),
                    ntchans := Suc (ntchans st),
                    vchans := (vchans st)(nvchans st := \<lparr>chan_cap = m, chan_buf = []\<rparr>),
                    nvchans := Suc (nvchans st),
                    entries := (entries st)(k := Some ?entry1)\<rparr>"
  have sw: "UpdateIfExists_swap k entry f m st = Done (?st1, available entry, ?entry1, ?inUse)"
    by (rule UpdateIfExists_swap_eq [OF assms(2,3,4,5)])
  have t1: "tchans ?st1 (capacity ?entry1) = \<lparr>chan_cap = m, chan_buf = replicate (nat (m - ?inUse)) 1\<rparr>"
    by simp
  have A: "\<exists>st1. UpdateIfExists_swap k entry f m st = Done (st1, available entry, ?entry1, ?inUse)
              \<and> tchans st1 (capacity ?entry1) =
                  \<lparr>chan_cap = m, chan_buf = replicate (nat (m - ?inUse)) 1\<rparr>"
    using sw t1 by blast
  have B': "UpdateIfExists_loop ?entry1 f m (available entry) (available ?entry1) n j err s =
                  UpdateIfExists_loop ?entry1 f m (available entry) (available ?entry1) (n - 1) j
                    (errors_Join err (Some e))
                    (s\<lparr>vchans := (vchans s)(available entry := (vchans s (available entry))\<lparr>chan_buf := cs\<rparr>),
                       closedLog := closedLog s @ [cv_value cv],
                       world := w,
                       tchans := (tchans s)(capacity ?entry1 := (tchans s (capacity ?entry1))
                          \<lparr>chan_buf := chan_buf (tchans s (capacity ?entry1)) @ [1]\<rparr>)\<rparr>)"
    if "0 < n \<and> chan_buf (vchans s (available entry)) = c # cs
                \<and> cells s c = Some cv \<and> \<not> lock cv \<and> j < m \<and> f (world s) = (Inl e, w)
                \<and> int (length (chan_buf (tchans s (capacity ?entry1)))) < chan_cap (tchans s (capacity ?entry1))"
    for n j err s c cs cv e w
    using that by (intro UpdateIfExists_loop_fail_step) blast+
  have B: "\<forall>n j err s c cs cv e w.
              0 < n \<and> chan_buf (vchans s (available entry)) = c # cs
                \<and> cells s c = Some cv \<and> \<not> lock cv \<and> j < m \<and> f (world s) = (Inl e, w)
                \<and> int (length (chan_buf (tchans s (capacity ?entry1)))) < chan_cap (tchans s (capacity ?entry1))
              \<longrightarrow> UpdateIfExists_loop ?entry1 f m (available entry) (available ?entry1) n j err s =
                  UpdateIfExists_loop ?entry1 f m (available entry) (available ?entry1) (n - 1) j
                    (errors_Join err (Some e))
                    (s\<lparr>vchans := (vchans s)(available entry := (vchans s (available entry))\<lparr>chan_buf := cs\<rparr>),
                       closedLog := closedLog s @ [cv_value cv],
                       world := w,
                       tchans := (tchans s)(capacity ?entry1 := (tchans s (capacity ?entry1))
                          \<lparr>chan_buf := chan_buf (tchans s (capacity ?entry1)) @ [1]\<rparr>)\<rparr>)"
    using B' by blast
  have C: "\<exists>st2.
                   UpdateIfExists k f m st =
                     Done (st2, True,
                           if failures ?rs \<noteq> [] \<and> successes ?rs = []
                           then joinAll None (failures ?rs) else None)
                 \<and> entries st2 k = Some ?entry1
                 \<and> tchans st2 (capacity ?entry1) =
                     \<lparr>chan_cap = m,
                      chan_buf = replicate (nat (m - ?inUse) + length (failures ?rs)) 1\<rparr>
                 \<and> vchans st2 (available ?entry1) = \<lparr>chan_cap = m, chan_buf = rebuilt ?bs ?rs\<rparr>
                 \<and> length (rebuilt ?bs ?rs) = length (successes ?rs)
                 \<and> length (failures ?rs) + length (successes ?rs) = length ?bs
                 \<and> (joinAll None (failures ?rs) = None) = (failures ?rs = [])
                 \<and> world st2 = world_after f (length ?bs) (world st)
                 \<and> list_all2 (\<lambda>c r. cells st2 c =
                       (case r of
                          Inl e \<Rightarrow> cells st c
                        | Inr v \<Rightarrow> map_option (\<lambda>cv. cv\<lparr>cv_value := v, returnChan := available ?entry1\<rparr>)
                                     (cells st c)))
                      ?bs ?rs"
    if h: "int (length ?bs) = ?inUse \<and> ?inUse \<le> m \<and> allIdle st ?bs \<and> distinct ?bs"
  proof -
    from h have iu: "int (length ?bs) = ?inUse" and im: "int (length ?bs) \<le> m"
      and idle: "allIdle st ?bs" and dist: "distinct ?bs"
      by simp_all
    have cons: "int (length ?bs) + int (length ?tk) = maxCapacity entry"
      using iu by simp
    have ls: "length (successes (butlast ?rs)) \<le> length (butlast ?rs)"
      by (rule length_successes_le)
    have g1: "length ?bs \<noteq> 0 \<longrightarrow> int (length (successes (butlast ?rs))) < m"
    proof
      assume "length ?bs \<noteq> 0"
      then have "length (butlast ?rs) < length ?bs"
        by simp
      with ls have "int (length (successes (butlast ?rs))) < int (length ?bs)"
        by linarith
      with im show "int (length (successes (butlast ?rs))) < m"
        by linarith
    qed
    have g2: "length ?bs < length ?bs \<longrightarrow> m \<le> int (length (successes ?rs))"
      by simp
    have "length (failures ?rs) \<le> length ?bs"
      using length_failures_successes [of ?rs] by simp
    then have g3: "int (nat (m - int (length ?bs))) + int (length (failures ?rs)) \<le> m"
      using im by simp
    from UpdateIfExists_run [OF assms(1,2,3,4,6) refl cons idle dist le_refl g1 g2 g3]
    obtain st2 where
      r1: "UpdateIfExists k f m st =
             Done (st2, True,
                   if failures ?rs \<noteq> [] \<and> successes ?rs = []
                   then joinAll None (failures ?rs) else None)"
      and r2: "entries st2 k = Some ?entry1"
      and r3: "vchans st2 (nvchans st) = \<lparr>chan_cap = m, chan_buf = rebuilt (take (length ?bs) ?bs) ?rs\<rparr>"
      and r4: "tchans st2 (ntchans st) =
             \<lparr>chan_cap = m,
              chan_buf = replicate (nat (m - int (length ?bs)) + length (failures ?rs)) 1\<rparr>"
      and r6: "world st2 = world_after f (length ?bs) (world st)"
      and r9: "list_all2 (\<lambda>c r. cells st2 c =
               (case r of
                  Inl e \<Rightarrow> cells st c
                | Inr v \<Rightarrow> map_option (\<lambda>cv. cv\<lparr>cv_value := v, returnChan := nvchans st\<rparr>) (cells st c)))
              (take (length ?bs) ?bs) ?rs"
      by blast
    have q3: "vchans st2 (available ?entry1) = \<lparr>chan_cap = m, chan_buf = rebuilt ?bs ?rs\<rparr>"
      using r3 by simp
    have q4: "tchans st2 (capacity ?entry1) =
                     \<lparr>chan_cap = m,
                      chan_buf = replicate (nat (m - ?inUse) + length (failures ?rs)) 1\<rparr>"
      using r4 unfolding iu by simp
    have q5: "length (rebuilt ?bs ?rs) = length (successes ?rs)"
      by (rule length_rebuilt) simp
    have q6: "length (failures ?rs) + length (successes ?rs) = length ?bs"
      using length_failures_successes [of ?rs] by simp
    have q7: "(joinAll None (failures ?rs) = None) = (failures ?rs = [])"
      by (simp add: joinAll_None)
    have q9: "list_all2 (\<lambda>c r. cells st2 c =
                       (case r of
                          Inl e \<Rightarrow> cells st c
                        | Inr v \<Rightarrow> map_option (\<lambda>cv. cv\<lparr>cv_value := v, returnChan := available ?entry1\<rparr>)
                                     (cells st c)))
                      ?bs ?rs"
    proof -
      have a1: "available ?entry1 = nvchans st"
        by simp
      show ?thesis
        using r9 unfolding a1 by simp
    qed
    show ?thesis
      by (rule exI [of _ st2])
         (rule conjI [OF r1 conjI [OF r2 conjI [OF q4 conjI [OF q3 conjI [OF q5 conjI [OF q6
            conjI [OF q7 conjI [OF r6 q9]]]]]]]])
  qed
  show ?thesis
    unfolding Let_def
    by (rule conjI [OF A conjI [OF B]]) (rule impI, rule C)
qed


theorem UpdateIfExists_rebuild_failures_witness:
  "(\<exists>st2. UpdateIfExists 7 (factory_fail_at 3) 3 pool_three_idle = Done (st2, True, None)
          \<and> tchans st2 1 = \<lparr>chan_cap = 3, chan_buf = [1]\<rparr>
          \<and> vchans st2 1 = \<lparr>chan_cap = 3, chan_buf = [1, 2]\<rparr>)
   \<and> (\<exists>st2. UpdateIfExists 7 factory_fail 3 pool_three_idle =
               Done (st2, True,
                     Some (joinError [joinError [joinError [Err ''dial''], Err ''dial''], Err ''dial'']))
          \<and> tchans st2 1 = \<lparr>chan_cap = 3, chan_buf = [1, 1, 1]\<rparr>
          \<and> vchans st2 1 = \<lparr>chan_cap = 3, chan_buf = []\<rparr>)"
proof -
  have h1: "entries pool_three_idle 7 = Some entry3"
    by (simp add: pool_three_idle_def)
  have h2: "(0::int) \<le> 3" "3 \<le> maxChan pool_three_idle"
    by (simp_all add: pool_three_idle_def)
  have t: "tchans pool_three_idle (capacity entry3) = \<lparr>chan_cap = 3, chan_buf = []\<rparr>"
    by (simp add: pool_three_idle_def entry3_def)
  have h3: "int (length (chan_buf (tchans pool_three_idle (capacity entry3))))
              \<le> chan_cap (tchans pool_three_idle (capacity entry3))"
    unfolding t by simp
  have h4: "int (length (chan_buf (tchans pool_three_idle (capacity entry3)))) \<le> maxCapacity entry3"
    unfolding t by (simp add: entry3_def)
  have h5: "available entry3 < nvchans pool_three_idle"
    by (simp add: pool_three_idle_def entry3_def)
  have bs: "chan_buf (vchans pool_three_idle (available entry3)) = [0, 1, 2]"
    by (simp add: pool_three_idle_def entry3_def)
  have pr: "int (length (chan_buf (vchans pool_three_idle (available entry3)))) =
              maxCapacity entry3 - int (length (chan_buf (tchans pool_three_idle (capacity entry3))))
          \<and> maxCapacity entry3 - int (length (chan_buf (tchans pool_three_idle (capacity entry3)))) \<le> 3
          \<and> allIdle pool_three_idle (chan_buf (vchans pool_three_idle (available entry3)))
          \<and> distinct (chan_buf (vchans pool_three_idle (available entry3)))"
    unfolding bs t by (simp add: entry3_def allIdle_def pool_three_idle_def)
  have r1: "calls (factory_fail_at 3) (length [0, 1, 2::nat]) (world pool_three_idle) =
              [Inl (Err ''dial''), Inr 4, Inr 5]"
    by (simp add: factory_fail_at_def pool_three_idle_def)
  have r2: "calls factory_fail (length [0, 1, 2::nat]) (world pool_three_idle) =
              [Inl (Err ''dial''), Inl (Err ''dial''), Inl (Err ''dial'')]"
    by (simp add: factory_fail_def pool_three_idle_def)
  have a: "\<exists>st2. UpdateIfExists 7 (factory_fail_at 3) 3 pool_three_idle = Done (st2, True, None)
          \<and> tchans st2 1 = \<lparr>chan_cap = 3, chan_buf = [1]\<rparr>
          \<and> vchans st2 1 = \<lparr>chan_cap = 3, chan_buf = [1, 2]\<rparr>"
    using UpdateIfExists_rebuild_failures [OF h1 h2 h3 h4 h5, of "factory_fail_at 3",
        unfolded Let_def, THEN conjunct2, THEN conjunct2, THEN mp, OF pr]
    unfolding bs t r1
    by (auto simp: entry3_def pool_three_idle_def)
  have b: "\<exists>st2. UpdateIfExists 7 factory_fail 3 pool_three_idle =
               Done (st2, True,
                     Some (joinError [joinError [joinError [Err ''dial''], Err ''dial''], Err ''dial'']))
          \<and> tchans st2 1 = \<lparr>chan_cap = 3, chan_buf = [1, 1, 1]\<rparr>
          \<and> vchans st2 1 = \<lparr>chan_cap = 3, chan_buf = []\<rparr>"
    using UpdateIfExists_rebuild_failures [OF h1 h2 h3 h4 h5, of factory_fail,
        unfolded Let_def, THEN conjunct2, THEN conjunct2, THEN mp, OF pr]
    unfolding bs t r2
    by (auto simp: entry3_def pool_three_idle_def errors_Join_def map_filter_simps numeral_3_eq_3)
  show ?thesis
    by (rule conjI [OF a b])
qed

text \<open>
  C4 as it was stated also said that the accumulated error is surfaced when some
  cells were kept. It is not: here the first of three rebuilds fails, the loop ends
  with two cells kept and the error of the first in \<open>err\<close>, and the call returns nil.
\<close>

theorem UpdateIfExists_partial_failure_counterexample:
  "UpdateIfExists_swap 7 entry3 (factory_fail_at 3) 3 pool_three_idle =
     Done (pool_three_swapped, 0, entry3_flaky, 3)
   \<and> UpdateIfExists_loop entry3_flaky (factory_fail_at 3) 3 0 1 3 0 None pool_three_swapped =
     Done (pool_three_partial, 2, Some (joinError [Err ''dial'']))
   \<and> UpdateIfExists 7 (factory_fail_at 3) 3 pool_three_idle = Done (pool_three_partial, True, None)"
  by (intro conjI pool_three_idle_swapped pool_three_swapped_partial pool_three_idle_partial)

text \<open>With a new cap below the number of cells, the ticket of a failed rebuild may
  find the new capacity channel full, and the call then waits on line 201 for a
  ticket to be taken: from two idle cells, a new cap of one and a factory that
  fails, the first failure fills the channel and the second blocks. This is the
  defect of \<open>UpdateIfExists\<close> that breaks the capacity conservation identity, and
  the statement above says nothing of it.\<close>

lemma UpdateIfExists_blocks_on_full_capacity:
  "UpdateIfExists 7 factory_fail 1 pool_two_queued = Blocks"
  by (simp add: UpdateIfExists_def UpdateIfExists_swap_def make_chan_def getAvailableCapacity_def
      drain_capacity.simps fill_loop.simps UpdateIfExists_loop.simps chan_recv_def chan_send_def
      set_tchan_def set_vchan_def set_cell_def closeExcess_def updateValue_def Close_def
      pool_two_queued_def entry3_def factory_fail_def
      errors_Join_def map_filter_simps Let_def)



subsection \<open>returnToCache\<close>






subsection \<open>Capacity conservation\<close>

text \<open>The pool \<open>pool_three_idle\<close> is what three calls of \<open>AddAndAcquire\<close> for one key
  with a cap of three, followed by the three releases, make of a new cache.\<close>

lemma pool_three_idle_reached:
  "\<exists>s1 s2 s3 s4 s5.
      AddAndAcquire 0 None 0 7 factory_ok 3 (NewLRUCache 1024 0 0) =
        Done (s1, Some 0, ReturnToCache 0, False, None)
    \<and> AddAndAcquire 0 None 0 7 factory_ok 3 s1 = Done (s2, Some 1, ReturnToCache 1, True, None)
    \<and> AddAndAcquire 0 None 0 7 factory_ok 3 s2 = Done (s3, Some 2, ReturnToCache 2, True, None)
    \<and> invoke (ReturnToCache 0) s3 = Done s4
    \<and> invoke (ReturnToCache 1) s4 = Done s5
    \<and> invoke (ReturnToCache 2) s5 = Done pool_three_idle"
  by (simp add: AddAndAcquire_def NewLRUCache_def sweepCheck_def Minute_def make_chan_def
      fill_loop.simps chan_send_def chan_recv_def createCacheValue_def factory_ok_def
      set_tchan_def set_cell_def set_vchan_def handOut_def acquireFromCache_def Let_def
      fromEntry_def getValue_def getValue_ready_def select_pick_def invoke_def
      returnToCache_def returnToCache_between_def returnToCache_send_def returnToCache_unlock_def nil_chan_def
      pool_three_idle_def entry3_def; auto simp: fun_eq_iff)

lemma pool_three_idle_over:
  "UpdateIfExists 7 (factory_fail_at 3) 2 pool_three_idle = Done (pool_three_over, True, None)"
  by (simp add: UpdateIfExists_def UpdateIfExists_swap_def make_chan_def getAvailableCapacity_def
      drain_capacity.simps fill_loop.simps UpdateIfExists_loop.simps chan_recv_def chan_send_def
      set_tchan_def set_vchan_def set_cell_def closeExcess_def updateValue_def Close_def
      pool_three_idle_def pool_three_over_def entry3_def entry2_flaky_def factory_fail_at_def
      errors_Join_def map_filter_simps Let_def; auto simp: fun_eq_iff)

lemma pool_three_over_Get:
  "Get 1 None 0 7 pool_three_over = Done (pool_three_over_taken, Some 6, ReturnToCache 3, True, None)"
  by (simp add: Get_def sweepCheck_def Minute_def fromEntry_def getValue_def getValue_ready_def
      select_pick_def chan_recv_def createCacheValue_def set_tchan_def set_cell_def handOut_def
      acquireFromCache_def pool_three_over_def pool_three_over_taken_def entry2_flaky_def
      factory_fail_at_def; auto simp: fun_eq_iff)

text \<open>
  C1. The claim is that every operation keeps, for every entry, the number of idle
  cells plus the number of cells in use plus the number of tickets equal to the cap.
  \<open>UpdateIfExists\<close> does not: when the new cap is below the number of cells and a
  rebuild fails, the failed cell leaves a ticket although the cells that remain
  already fill the new cap. From three idle cells under a cap of three (where the
  identity holds), a new cap of two and a factory whose first call fails, the call
  returns with two idle cells and one ticket under a cap of two. A \<open>Get\<close> can then
  take the ticket and build a third cell, whose release blocks on the full queue.
\<close>

theorem UpdateIfExists_shrink_with_failure_breaks_conservation:
  "entries pool_three_idle 7 = Some entry3
   \<and> conserved entry3 pool_three_idle
   \<and> UpdateIfExists 7 (factory_fail_at 3) 2 pool_three_idle = Done (pool_three_over, True, None)
   \<and> entries pool_three_over 7 = Some entry2_flaky
   \<and> length (chan_buf (vchans pool_three_over (available entry2_flaky))) = 2
   \<and> in_use entry2_flaky pool_three_over = 0
   \<and> length (chan_buf (tchans pool_three_over (capacity entry2_flaky))) = 1
   \<and> maxCapacity entry2_flaky = 2
   \<and> \<not> conserved entry2_flaky pool_three_over
   \<and> Get 1 None 0 7 pool_three_over =
       Done (pool_three_over_taken, Some 6, ReturnToCache 3, True, None)
   \<and> invoke (ReturnToCache 3) pool_three_over_taken = Blocks"
proof -
  have a: "entries pool_three_idle 7 = Some entry3"
    by (simp add: pool_three_idle_def)
  have b: "conserved entry3 pool_three_idle"
    by (simp add: conserved_def in_use_def pool_three_idle_def entry3_def upt_rec)
  have c: "entries pool_three_over 7 = Some entry2_flaky"
    by (simp add: pool_three_over_def)
  have d: "length (chan_buf (vchans pool_three_over (available entry2_flaky))) = 2"
    "length (chan_buf (tchans pool_three_over (capacity entry2_flaky))) = 1"
    "maxCapacity entry2_flaky = 2"
    by (simp_all add: pool_three_over_def entry2_flaky_def)
  have e: "in_use entry2_flaky pool_three_over = 0"
    by (simp add: in_use_def pool_three_over_def entry2_flaky_def upt_rec)
  have f: "\<not> conserved entry2_flaky pool_three_over"
    unfolding conserved_def d e by simp
  have g: "invoke (ReturnToCache 3) pool_three_over_taken = Blocks"
    by (simp add: invoke_def returnToCache_def returnToCache_between_def returnToCache_send_def chan_send_def
        pool_three_over_taken_def)
  from a b c d e f g pool_three_idle_over pool_three_over_Get show ?thesis
    by blast
qed

subsection \<open>cleanupValues after the cap was brought down\<close>

text \<open>
  C6. The claim is that \<open>cleanupValues\<close> closes every drained cell that has not been
  used for thirty minutes and returns one ticket for it, puts the others back, and
  returns whether the capacity channel is full. In a pool where idle cells and tickets
  fit the capacity of the channel it does (\<open>cleanupValues_sweeps_idle_cells\<close>). But
  \<open>UpdateIfExists\<close> can leave a pool in which they do not, by the defect that breaks
  the capacity conservation identity: from three idle cells under a cap of three, a
  new cap of two and a factory whose first call fails leave two idle cells and one
  ticket under a cap of two. Thirty
  minutes later both cells have expired. \<open>cleanupValues\<close> closes the value of the
  first and sends its ticket, which fills the channel, closes the value of the second
  and blocks on the send of line 303, with the lock of the entry held; it never
  returns. So does the sweep that a \<open>Get\<close> launches then, with the lock of the pool
  held.
\<close>

theorem cleanupValues_blocks_after_shrink_with_failure:
  "conserved entry3 pool_three_idle
   \<and> UpdateIfExists 7 (factory_fail_at 3) 2 pool_three_idle = Done (pool_three_over, True, None)
   \<and> entries pool_three_over 7 = Some entry2_flaky
   \<and> chan_buf (vchans pool_three_over (available entry2_flaky)) = [1, 2]
   \<and> allIdle pool_three_over [1, 2]
   \<and> filter (expired (30 * Minute) pool_three_over) [1, 2] = [1, 2]
   \<and> tchans pool_three_over (capacity entry2_flaky) = \<lparr>chan_cap = 2, chan_buf = [1]\<rparr>
   \<and> cleanupValues (30 * Minute) entry2_flaky pool_three_over = Blocks
   \<and> Get 0 None (30 * Minute) 8 pool_three_over =
       Done (pool_three_over\<lparr>lastChecked := 30 * Minute, sweeps := 1\<rparr>,
             None, NilReturnCapacityToCache, False, None)
   \<and> runSweep (30 * Minute) [7] (pool_three_over\<lparr>lastChecked := 30 * Minute, sweeps := 1\<rparr>) = Blocks"
proof -
  have b: "conserved entry3 pool_three_idle"
    by (simp add: conserved_def in_use_def pool_three_idle_def entry3_def upt_rec)
  have c: "entries pool_three_over 7 = Some entry2_flaky"
    by (simp add: pool_three_over_def)
  have d: "chan_buf (vchans pool_three_over (available entry2_flaky)) = [1, 2]"
    "tchans pool_three_over (capacity entry2_flaky) = \<lparr>chan_cap = 2, chan_buf = [1]\<rparr>"
    by (simp_all add: pool_three_over_def entry2_flaky_def)
  have i: "allIdle pool_three_over [1, 2]"
    by (simp add: allIdle_def pool_three_over_def)
  have x: "filter (expired (30 * Minute) pool_three_over) [1, 2] = [1, 2]"
    by (simp add: expired_def pool_three_over_def Minute_def)
  have v: "cleanupValues (30 * Minute) entry2_flaky pool_three_over = Blocks"
    by (simp add: cleanupValues_def getValidValuesAndCleanupOthers.simps cleanupCell_def
        chan_recv_def chan_send_def set_vchan_def set_tchan_def Close_def Minute_def
        pool_three_over_def entry2_flaky_def Let_def)
  have g: "Get 0 None (30 * Minute) 8 pool_three_over =
       Done (pool_three_over\<lparr>lastChecked := 30 * Minute, sweeps := 1\<rparr>,
             None, NilReturnCapacityToCache, False, None)"
    by (simp add: Get_def sweepCheck_def Minute_def pool_three_over_def)
  have v': "cleanupValues (30 * Minute) entry2_flaky
              (pool_three_over\<lparr>lastChecked := 30 * Minute, sweeps := 0\<rparr>) = Blocks"
    by (simp add: cleanupValues_def getValidValuesAndCleanupOthers.simps cleanupCell_def
        chan_recv_def chan_send_def set_vchan_def set_tchan_def Close_def Minute_def
        pool_three_over_def entry2_flaky_def Let_def)
  have r: "runSweep (30 * Minute) [7] (pool_three_over\<lparr>lastChecked := 30 * Minute, sweeps := 1\<rparr>) = Blocks"
    by (simp add: runSweep_def c v')
  from b c d i x v g r pool_three_idle_over show ?thesis
    by simp
qed

subsection \<open>The operations that keep the capacity conservation identity\<close>

lemma in_use_card:
  "in_use ce st =
     card {c. c < ncells st \<and>
              (case cells st c of None \<Rightarrow> False
               | Some cv \<Rightarrow> lock cv \<and> returnChan cv = available ce)}"
  unfolding in_use_def length_filter_conv_card
  by (rule arg_cong [where f = card]) auto

lemma in_use_lock:
  assumes "c < ncells st" and "cells st c = Some cv" and "\<not> lock cv"
    and "returnChan cv = available ce"
    and "cells st' = (cells st)(c := Some (cv\<lparr>lock := True, lastUsed := t\<rparr>))"
    and "ncells st' = ncells st"
  shows "in_use ce st' = Suc (in_use ce st)"
proof -
  let ?A = "{d. d < ncells st \<and>
              (case cells st d of None \<Rightarrow> False
               | Some cv \<Rightarrow> lock cv \<and> returnChan cv = available ce)}"
  have "{d. d < ncells st' \<and>
              (case cells st' d of None \<Rightarrow> False
               | Some cv \<Rightarrow> lock cv \<and> returnChan cv = available ce)} = insert c ?A"
    using assms by (auto split: option.splits if_splits)
  moreover have "c \<notin> ?A"
    using assms(2,3) by simp
  moreover have "finite ?A"
    by simp
  ultimately show ?thesis
    unfolding in_use_card by simp
qed

lemma in_use_unlock:
  assumes "c < ncells st" and "cells st c = Some cv" and "lock cv"
    and "returnChan cv = available ce"
    and "cells st' = (cells st)(c := Some (cv\<lparr>lock := False\<rparr>))"
    and "ncells st' = ncells st"
  shows "Suc (in_use ce st') = in_use ce st"
proof -
  let ?A = "{d. d < ncells st' \<and>
              (case cells st' d of None \<Rightarrow> False
               | Some cv \<Rightarrow> lock cv \<and> returnChan cv = available ce)}"
  have "{d. d < ncells st \<and>
              (case cells st d of None \<Rightarrow> False
               | Some cv \<Rightarrow> lock cv \<and> returnChan cv = available ce)} = insert c ?A"
    using assms by (auto split: option.splits if_splits)
  moreover have "c \<notin> ?A"
    using assms(5) by simp
  moreover have "finite ?A"
    by simp
  ultimately show ?thesis
    unfolding in_use_card by simp
qed

lemma in_use_new_cell:
  assumes "cells st' = (cells st)(ncells st := Some cv)" and "ncells st' = Suc (ncells st)"
  shows "in_use ce st' = in_use ce st + (if lock cv \<and> returnChan cv = available ce then 1 else 0)"
proof -
  let ?P = "\<lambda>st c. case cells st c of None \<Rightarrow> False
                     | Some cv \<Rightarrow> lock cv \<and> returnChan cv = available ce"
  have "filter (?P st') [0..<ncells st] = filter (?P st) [0..<ncells st]"
    by (rule filter_cong) (simp_all add: assms(1))
  then show ?thesis
    by (simp add: in_use_def assms)
qed

lemma in_use_same:
  "cells st' = cells st \<Longrightarrow> ncells st' = ncells st \<Longrightarrow> in_use ce st' = in_use ce st"
  by (simp add: in_use_def)

lemma getValue_keeps_conserved:
  assumes c: "conserved ce st" and q: "queue_ok ce st"
    and g: "getValue rnd ctx now ce st = Done (st', v, r, err)"
  shows "conserved ce st'"
proof (cases "select_pick rnd (getValue_ready ctx ce st)")
  case None
  with g show ?thesis
    by (simp add: getValue_def)
next
  case (Some alt)
  show ?thesis
  proof (cases alt)
    case CtxDone
    with Some g have "st' = st"
      by (auto simp: getValue_def split: option.splits)
    with c show ?thesis
      by simp
  next
    case FromAvailable
    with Some have p: "select_pick rnd (getValue_ready ctx ce st) = Some FromAvailable"
      by simp
    then have "FromAvailable \<in> set (getValue_ready ctx ce st)"
      by (rule select_pick_mem)
    then obtain d ds where b: "chan_buf (vchans st (available ce)) = d # ds"
      by (cases "chan_buf (vchans st (available ce))") auto
    with q obtain cv where d: "d < ncells st" "cells st d = Some cv"
      "returnChan cv = available ce"
      by (auto simp: queue_ok_def split: option.splits)
    from g p b d(2) have nl: "\<not> lock cv"
      by (auto simp: getValue_def chan_recv_def handOut_def acquireFromCache_def set_vchan_def
          split: if_splits)
    from g have st': "st' = set_cell d (cv\<lparr>lock := True, lastUsed := now\<rparr>)
                   (set_vchan (available ce) ((vchans st (available ce))\<lparr>chan_buf := ds\<rparr>) st)"
      unfolding getValue_from_available [OF p b d(2) nl] by simp
    have "in_use ce st' = Suc (in_use ce st)"
      by (rule in_use_lock [OF d(1,2) nl d(3)]) (simp_all add: st' set_cell_def set_vchan_def)
    with c b show ?thesis
      by (simp add: conserved_def st' set_cell_def set_vchan_def)
  next
    case FromCapacity
    with Some have p: "select_pick rnd (getValue_ready ctx ce st) = Some FromCapacity"
      by simp
    then have "FromCapacity \<in> set (getValue_ready ctx ce st)"
      by (rule select_pick_mem)
    then obtain t ts where b: "chan_buf (tchans st (capacity ce)) = t # ts"
      by (cases "chan_buf (tchans st (capacity ce))") auto
    obtain res w where f: "createValue ce (world st) = (res, w)"
      by (cases "createValue ce (world st)")
    show ?thesis
    proof (cases res)
      case (Inl e)
      with g f have st': "st' = set_tchan (capacity ce)
                            ((tchans st (capacity ce))\<lparr>chan_buf := ts @ [1]\<rparr>) (st\<lparr>world := w\<rparr>)"
        unfolding getValue_from_capacity [OF p b] by (simp split: if_splits)
      have "in_use ce st' = in_use ce st"
        by (rule in_use_same) (simp_all add: st' set_tchan_def)
      with c b show ?thesis
        by (simp add: conserved_def st' set_tchan_def)
    next
      case (Inr x)
      let ?cv = "\<lparr>lock = True, returnChan = available ce, cv_value = x, lastUsed = now\<rparr>"
      from g f Inr have st': "st' = set_cell (ncells st) ?cv
                        (set_tchan (capacity ce) ((tchans st (capacity ce))\<lparr>chan_buf := ts\<rparr>)
                           (st\<lparr>world := w, ncells := Suc (ncells st)\<rparr>))"
        unfolding getValue_from_capacity [OF p b] by simp
      have "in_use ce st' = in_use ce st + (if lock ?cv \<and> returnChan ?cv = available ce then 1 else 0)"
        by (rule in_use_new_cell) (simp_all add: st' set_cell_def set_tchan_def)
      with c b show ?thesis
        by (simp add: conserved_def st' set_cell_def set_tchan_def)
    qed
  qed
qed

lemma returnToCache_keeps_conserved:
  assumes c: "conserved ce st"
    and d: "d < ncells st" "cells st d = Some cv" "returnChan cv = available ce"
    and r: "returnToCache d st = Done st'"
  shows "conserved ce st'"
proof -
  from r d(2) have l: "lock cv"
    and room: "int (length (chan_buf (vchans st (returnChan cv)))) < chan_cap (vchans st (returnChan cv))"
    by (auto simp: returnToCache_def returnToCache_between_def returnToCache_send_def returnToCache_unlock_def chan_send_def
        set_vchan_def split: if_splits)
  from r have st': "st' = set_cell d (cv\<lparr>lock := False\<rparr>)
                   (set_vchan (returnChan cv)
                      ((vchans st (returnChan cv))\<lparr>chan_buf := chan_buf (vchans st (returnChan cv)) @ [d]\<rparr>)
                      st)"
    unfolding returnToCache_eq [OF d(2) l room] by simp
  have "Suc (in_use ce st') = in_use ce st"
    by (rule in_use_unlock [OF d(1,2) l d(3)]) (simp_all add: st' set_cell_def set_vchan_def)
  with c d(3) show ?thesis
    by (simp add: conserved_def st' set_cell_def set_vchan_def)
qed

lemma cleanupValues_keeps_conserved:
  assumes c: "conserved ce st"
    and i: "allIdle st (chan_buf (vchans st (available ce)))"
    and cap: "chan_cap (vchans st (available ce)) = maxCapacity ce"
      "chan_cap (tchans st (capacity ce)) = maxCapacity ce"
  shows "\<exists>st' noneLeft. cleanupValues now ce st = Done (st', noneLeft) \<and> conserved ce st'"
proof -
  let ?bs = "chan_buf (vchans st (available ce))"
  have le: "int (length (filter (expired now st) ?bs)) \<le> int (length ?bs)"
    by simp
  from c cap have h2: "int (length ?bs) \<le> chan_cap (vchans st (available ce))"
    by (simp add: conserved_def)
  from c cap le have h3: "int (length (chan_buf (tchans st (capacity ce))))
           + int (length (filter (expired now st) ?bs)) \<le> chan_cap (tchans st (capacity ce))"
    unfolding conserved_def by linarith
  note e = cleanupValues_eq [OF i h2 h3]
  have s: "length (filter (\<lambda>c. \<not> expired now st c) ?bs) + length (filter (expired now st) ?bs)
             = length ?bs"
    using sum_length_filter_compl [of "expired now st" ?bs] by simp
  have "conserved ce (st\<lparr>vchans := (vchans st)(available ce := (vchans st (available ce))
                       \<lparr>chan_buf := filter (\<lambda>c. \<not> expired now st c) ?bs\<rparr>),
                    tchans := (tchans st)(capacity ce := (tchans st (capacity ce))
                       \<lparr>chan_buf := replicate
                          (length (chan_buf (tchans st (capacity ce)))
                           + length (filter (expired now st) ?bs)) 1\<rparr>),
                    closedLog := closedLog st @ valuesOf st (filter (expired now st) ?bs)\<rparr>)"
    using c s by (simp add: conserved_def in_use_def)
  with e show ?thesis
    by blast
qed

lemma AddAndAcquire_new_key_conserved:
  assumes "entries st k = None" and "1 \<le> cap" and "cap \<le> maxChan st"
    and fresh: "list_all (\<lambda>c. case cells st c of None \<Rightarrow> True
                              | Some cv \<Rightarrow> returnChan cv \<noteq> nvchans st) [0..<ncells st]"
  shows "\<exists>st' res entry. AddAndAcquire rnd ctx now k f cap st = Done (st', res)
           \<and> entries st' k = Some entry \<and> conserved entry st'"
proof -
  let ?entry = "\<lparr>available = nvchans st, capacity = ntchans st, maxCapacity = cap,
                  createValue = f, key = k\<rparr>"
  let ?P = "\<lambda>c. case cells st c of None \<Rightarrow> False
                | Some cv \<Rightarrow> lock cv \<and> returnChan cv = nvchans st"
  have "filter ?P [0..<ncells st] = []"
    using fresh by (auto simp: filter_empty_conv list_all_iff split: option.splits)
  then have z: "in_use ?entry (installed now k f cap n st) = 0" for n
    by (simp add: in_use_def installed_def cong: option.case_cong)
  obtain res w where fw: "f (world st) = (res, w)"
    by (cases "f (world st)")
  show ?thesis
  proof (cases res)
    case (Inl e)
    let ?st' = "(installed now k f cap (nat cap) st)\<lparr>world := w\<rparr>"
    have "in_use ?entry ?st' = in_use ?entry (installed now k f cap (nat cap) st)"
      by (rule in_use_same) simp_all
    with z have "conserved ?entry ?st'"
      using assms(2) by (simp add: conserved_def installed_def)
    moreover have "entries ?st' k = Some ?entry"
      by (simp add: installed_def)
    moreover have "AddAndAcquire rnd ctx now k f cap st =
        Done (?st', None, NilReturnCapacityToCache, False, Some e)"
      using fw Inl by (simp add: AddAndAcquire_new_key [OF assms(1,2,3)])
    ultimately show ?thesis
      by blast
  next
    case (Inr x)
    let ?cv = "\<lparr>lock = True, returnChan = nvchans st, cv_value = x, lastUsed = now\<rparr>"
    let ?st' = "(installed now k f cap (nat cap - 1) st)
                  \<lparr>world := w, ncells := Suc (ncells st), cells := (cells st)(ncells st := Some ?cv)\<rparr>"
    have "in_use ?entry ?st' = in_use ?entry (installed now k f cap (nat cap - 1) st)
            + (if lock ?cv \<and> returnChan ?cv = available ?entry then 1 else 0)"
      by (rule in_use_new_cell) (simp_all add: installed_def)
    with z have "conserved ?entry ?st'"
      using assms(2) by (simp add: conserved_def installed_def)
    moreover have "entries ?st' k = Some ?entry"
      by (simp add: installed_def)
    moreover have "AddAndAcquire rnd ctx now k f cap st =
        Done (?st', Some x, ReturnToCache (ncells st), False, None)"
      using fw Inr by (simp add: AddAndAcquire_new_key [OF assms(1,2,3)])
    ultimately show ?thesis
      by blast
  qed
qed

end
